theory Spec2Isabelle
  imports Complex_Main "HOL-Library.Signed_Division" "HOL-Library.Monad_Syntax"
begin

section \<open>Machine integers of the host and of the kernels\<close>

text \<open>
  The host converts shapes and sizes with \<^verbatim>\<open>i32 = np.int32\<close>; the OpenCL kernels
  compute with the C type \<^verbatim>\<open>int\<close>. Both are 32-bit two's complement integers. They are
  modelled as \<open>int\<close> with the wrap-around written out: \<open>i32 v\<close> is the value a 32-bit
  signed integer holds after \<open>v\<close> was stored into it.
\<close>

definition i32 :: "int \<Rightarrow> int" where
  "i32 v = (v + 2147483648) mod 4294967296 - 2147483648"

definition in_i32 :: "int \<Rightarrow> bool" where
  "in_i32 v = (- 2147483648 \<le> v \<and> v < 2147483648)"

text \<open>The same for numpy's \<^verbatim>\<open>int64\<close>, the type of \<^verbatim>\<open>np.prod\<close> of a shape.\<close>

definition i64 :: "int \<Rightarrow> int" where
  "i64 v = (v + 9223372036854775808) mod 18446744073709551616 - 9223372036854775808"

definition in_i64 :: "int \<Rightarrow> bool" where
  "in_i64 v = (- 9223372036854775808 \<le> v \<and> v < 9223372036854775808)"

text \<open>
  C arithmetic on \<^verbatim>\<open>int\<close>: the product and the sum wrap, the quotient truncates towards
  zero (\<open>sdiv\<close>, \<open>smod\<close>), and a division by zero is undefined behaviour, the value
  \<open>None\<close> of the model.
\<close>

definition c_mul :: "int \<Rightarrow> int \<Rightarrow> int" where
  "c_mul a b = i32 (a * b)"

definition c_add :: "int \<Rightarrow> int \<Rightarrow> int" where
  "c_add a b = i32 (a + b)"

definition c_div :: "int \<Rightarrow> int \<Rightarrow> int option" where
  "c_div a b = (if b = 0 then None else Some (i32 (a sdiv b)))"

definition c_mod :: "int \<Rightarrow> int \<Rightarrow> int option" where
  "c_mod a b = (if b = 0 then None else Some (i32 (a smod b)))"

section \<open>Errors, device memory and buffers\<close>

text \<open>
  Every \<^verbatim>\<open>raise\<close> and every failed \<^verbatim>\<open>assert\<close> of the source is a value of \<open>error\<close>:
  \<^item> \<open>ShapeMismatch\<close> is the \<^verbatim>\<open>Exception("binary op unbroadcastable shape mismatch: ...")\<close>
    of \<^verbatim>\<open>binary_op\<close>, with the two shapes of its message;
  \<^item> \<open>IndexError\<close> is numpy's error for an index outside an array;
  \<^item> \<open>AssertionError\<close> is a failed \<^verbatim>\<open>assert\<close>;
  \<^item> \<open>ValueError\<close> is Python's error for unpacking a tuple of the wrong length, and numpy's
    for a negative dimension;
  \<^item> \<open>ZeroDivisionError\<close> is Python's error for \<^verbatim>\<open>//\<close> by zero;
  \<^item> \<open>BuildError\<close> is the failure of \<^verbatim>\<open>cl.Program(...).build()\<close>;
  \<^item> \<open>CLError\<close> is every other failure of the OpenCL runtime: an invalid launch, or
    undefined behaviour inside a kernel (a read or write outside a buffer, a division by
    zero).
\<close>

datatype error =
    ShapeMismatch "int list" "int list"
  | IndexError
  | AssertionError
  | ValueError
  | ZeroDivisionError
  | BuildError
  | CLError

text \<open>
  A \<^verbatim>\<open>cl.Buffer\<close> holds 4-byte floats, or the \<^verbatim>\<open>int32\<close> entries of a shape array
  (\<^verbatim>\<open>buffer_np\<close>). The element type \<open>'a\<close> of the floats is left open: the index
  arithmetic below does not depend on it.
\<close>

datatype 'a clmem = Floats "'a list" | Ints "int list"

text \<open>The key of the kernel cache: the arguments \<^verbatim>\<open>(cl_ctx, name, prg)\<close> of \<^verbatim>\<open>clbuild\<close>.\<close>

type_synonym key = "nat \<times> string \<times> string"

text \<open>
  The value of \<^verbatim>\<open>cl.Program(cl_ctx, prg).build().__getattr__(name)\<close>: the kernel \<^verbatim>\<open>name\<close>
  of a program built from the text \<^verbatim>\<open>prg\<close> in the context \<^verbatim>\<open>cl_ctx\<close>. What a kernel does
  when it is dispatched is fixed by \<open>built_from\<close>; \<open>build_no\<close> tells the programs of two
  builds of the same text apart.
\<close>

datatype kernel = Kernel (built_from: key) (build_no: nat)

text \<open>
  The state of the process and of the device:
  \<^item> \<open>mem\<close>: the \<^verbatim>\<open>cl.Buffer\<close> objects created so far; a buffer's handle is its position;
  \<^item> \<open>cache\<close>: the entries of the \<^verbatim>\<open>functools.lru_cache\<close> around \<^verbatim>\<open>clbuild\<close>, the most
    recently used first, each key with the kernel object stored for it;
  \<^item> \<open>compiles\<close>: how many times \<^verbatim>\<open>cl.Program(...).build()\<close> ran; the number of a
    build is the value of this counter when it started;
  \<^item> \<open>queue\<close>: the names of the kernels dispatched on \<^verbatim>\<open>ctx.cl_queue\<close>, in order;
  \<^item> \<open>cl_ctx\<close>: the OpenCL context \<^verbatim>\<open>ctx.cl_ctx\<close>;
  \<^item> \<open>compiler\<close>: whether the OpenCL compiler accepts a source text;
  \<^item> \<open>junk\<close>: what a buffer holds before anything was written to it.
\<close>

record 'a gpu =
  mem :: "'a clmem list"
  cache :: "(key \<times> kernel) list"
  compiles :: nat
  queue :: "string list"
  cl_ctx :: nat
  compiler :: "string \<Rightarrow> bool"
  junk :: 'a

text \<open>
  Modelled from the spec: the class \<^verbatim>\<open>GPUBuffer\<close> is imported from \<^verbatim>\<open>.tensor\<close>, which
  is not among the sources. By the spec a Device Buffer has a shape and owns a block of
  device memory of \<open>product(shape)\<close> floats, created uninitialised, from host data, or
  (for Reshape) on the storage of another buffer.
\<close>

record gpubuffer =
  shape :: "int list"
  cl :: nat

definition alloc :: "'a gpu \<Rightarrow> 'a clmem \<Rightarrow> nat \<times> 'a gpu" where
  "alloc g m = (length (mem g), g\<lparr>mem := mem g @ [m]\<rparr>)"

definition GPUBuffer :: "'a gpu \<Rightarrow> int list \<Rightarrow> 'a list option \<Rightarrow> gpubuffer \<times> 'a gpu" where
  "GPUBuffer g sh hostbuf =
     (let (h, g') = alloc g (Floats (case hostbuf of
                      None \<Rightarrow> replicate (nat (prod_list sh)) (junk g)
                    | Some xs \<Rightarrow> xs))
      in (\<lparr>shape = sh, cl = h\<rparr>, g'))"

definition GPUBuffer_alias :: "int list \<Rightarrow> gpubuffer \<Rightarrow> gpubuffer" where
  "GPUBuffer_alias sh x = \<lparr>shape = sh, cl = cl x\<rparr>"

definition buffer_new :: "'a gpu \<Rightarrow> int list \<Rightarrow> gpubuffer \<times> 'a gpu" where
  "buffer_new g sh = GPUBuffer g sh None"

definition buffer_zeros :: "('a::zero) gpu \<Rightarrow> int list \<Rightarrow> gpubuffer \<times> 'a gpu" where
  "buffer_zeros g sh = GPUBuffer g sh (Some (replicate (nat (prod_list sh)) 0))"

definition buffer_like :: "'a gpu \<Rightarrow> gpubuffer \<Rightarrow> gpubuffer \<times> 'a gpu" where
  "buffer_like g x = buffer_new g (shape x)"

text \<open>
  \<^verbatim>\<open>buffer_np\<close> copies a host array into a new \<^verbatim>\<open>cl.Buffer\<close>. OpenCL has no buffer of
  size 0: for an empty array the constructor raises (\<^verbatim>\<open>INVALID_BUFFER_SIZE\<close>).
\<close>

definition buffer_np :: "'a gpu \<Rightarrow> int list \<Rightarrow> (error + nat) \<times> 'a gpu" where
  "buffer_np g np_array =
     (if np_array = [] then (Inl CLError, g)
      else (case alloc g (Ints np_array) of (h, g') \<Rightarrow> (Inr h, g')))"

text \<open>Reading a float buffer by its handle; \<open>None\<close> when there is no such buffer.\<close>

definition floats :: "'a gpu \<Rightarrow> nat \<Rightarrow> 'a list option" where
  "floats g h =
     (if h < length (mem g) then (case mem g ! h of Floats xs \<Rightarrow> Some xs | Ints _ \<Rightarrow> None)
      else None)"

text \<open>
  A kernel reads \<^verbatim>\<open>a_g[i]\<close> and writes \<^verbatim>\<open>res_g[i] = v\<close> with a C \<^verbatim>\<open>int\<close> index; outside
  the buffer both are undefined behaviour.
\<close>

definition load :: "'a list \<Rightarrow> int \<Rightarrow> 'a option" where
  "load buf i = (if 0 \<le> i \<and> i < int (length buf) then Some (buf ! nat i) else None)"

definition store :: "'a list \<Rightarrow> int \<Rightarrow> 'a \<Rightarrow> 'a list option" where
  "store buf i v = (if 0 \<le> i \<and> i < int (length buf) then Some (buf[nat i := v]) else None)"

text \<open>
  A dispatch runs one thread per global id. No thread of the kernels below writes a cell
  another thread reads or writes, so the threads are run one after the other; the dispatch
  is undefined as soon as one thread is.
\<close>

fun run_threads :: "('g \<Rightarrow> 'a list \<Rightarrow> 'a list option) \<Rightarrow> 'g list \<Rightarrow> 'a list \<Rightarrow> 'a list option" where
  "run_threads thread [] out = Some out"
| "run_threads thread (gid # gids) out =
     (case thread gid out of None \<Rightarrow> None | Some out' \<Rightarrow> run_threads thread gids out')"

section \<open>The kernel cache\<close>

text \<open>
  \<^verbatim>\<open>@functools.lru_cache()\<close> is called without arguments, so the cache has the default
  \<^verbatim>\<open>maxsize=128\<close>: a hit moves the entry to the front, a miss calls the function and,
  unless it raised, stores the result, dropping the least recently used entry when the
  cache is full.
\<close>

definition lru_maxsize :: nat where
  "lru_maxsize = 128"

definition clbuild :: "'a gpu \<Rightarrow> key \<Rightarrow> (error + kernel) \<times> 'a gpu" where
  "clbuild g k =
     (case map_of (cache g) k of
        Some p \<Rightarrow> (Inr p, g\<lparr>cache := (k, p) # filter (\<lambda>e. fst e \<noteq> k) (cache g)\<rparr>)
      | None \<Rightarrow>
          if compiler g (snd (snd k))
          then (Inr (Kernel k (compiles g)),
                g\<lparr>cache := take lru_maxsize ((k, Kernel k (compiles g)) # cache g),
                  compiles := Suc (compiles g)\<rparr>)
          else (Inl BuildError, g\<lparr>compiles := Suc (compiles g)\<rparr>))"

section \<open>binary\_op\<close>

subsection \<open>The shapes, on the host\<close>

definition np_ones :: "nat \<Rightarrow> int list" where
  "np_ones n = replicate n 1"

text \<open>\<^verbatim>\<open>a[:len(s)] = np.array(s, dtype=np.int32)\<close>, for \<open>length s \<le> length a\<close>.\<close>

definition set_prefix :: "int list \<Rightarrow> int list \<Rightarrow> int list" where
  "set_prefix a s = map i32 s @ drop (length s) a"

text \<open>\<^verbatim>\<open>np.all((shape_x == 1) | (shape_y == 1) | (shape_x == shape_y))\<close>\<close>

definition broadcastable :: "int list \<Rightarrow> int list \<Rightarrow> bool" where
  "broadcastable shape_x shape_y =
     list_all (\<lambda>(dx, dy). dx = 1 \<or> dy = 1 \<or> dx = dy) (zip shape_x shape_y)"

definition np_maximum :: "int list \<Rightarrow> int list \<Rightarrow> int list" where
  "np_maximum shape_x shape_y = map (\<lambda>(dx, dy). max dx dy) (zip shape_x shape_y)"

text \<open>
  Lines 84 to 90 of \<^verbatim>\<open>binary_op\<close>: the padded shapes of the operands and the shape of
  the result, or the exception.
\<close>

definition binary_op_shapes :: "int list \<Rightarrow> int list \<Rightarrow> error + (int list \<times> int list \<times> int list)" where
  "binary_op_shapes xshape yshape =
     (let n_dims = max (length xshape) (length yshape);
          shape_x = set_prefix (np_ones n_dims) xshape;
          shape_y = set_prefix (np_ones n_dims) yshape
      in if \<not> broadcastable shape_x shape_y then Inl (ShapeMismatch xshape yshape)
         else Inr (shape_x, shape_y, np_maximum shape_x shape_y))"

subsection \<open>The kernel\<close>

text \<open>
  The loop of the kernel \<^verbatim>\<open>binop\<close> over \<^verbatim>\<open>dim = 0 .. n_dims - 1\<close>. The three shape arrays
  have \<^verbatim>\<open>n_dims\<close> entries each; the loop walks them together.
\<close>

fun binop_loop :: "int list \<Rightarrow> int list \<Rightarrow> int list \<Rightarrow> int \<Rightarrow> int \<Rightarrow> int \<Rightarrow> int \<Rightarrow> (int \<times> int) option" where
  "binop_loop (dx # shape_x) (dy # shape_y) (dr # shape_ret) gid prd idx_a idx_b =
     do {
       prd' \<leftarrow> c_div prd dr;
       q \<leftarrow> c_div gid prd';
       idx_ret \<leftarrow> c_mod q dr;
       ra \<leftarrow> c_mod idx_ret dx;
       rb \<leftarrow> c_mod idx_ret dy;
       binop_loop shape_x shape_y shape_ret gid prd'
         (c_add (c_mul idx_a dx) ra) (c_add (c_mul idx_b dy) rb)
     }"
| "binop_loop _ _ _ gid prd idx_a idx_b = Some (idx_a, idx_b)"

text \<open>
  The indices \<^verbatim>\<open>idx_a\<close>, \<^verbatim>\<open>idx_b\<close> of one thread. The source text of the kernel holds the
  loop when \<^verbatim>\<open>x.shape != y.shape\<close> (\<open>general\<close>), and \<^verbatim>\<open>int idx_a = gid, idx_b = gid;\<close>
  otherwise.
\<close>

definition binop_indices :: "bool \<Rightarrow> int list \<Rightarrow> int list \<Rightarrow> int list \<Rightarrow> int \<Rightarrow> int \<Rightarrow> (int \<times> int) option" where
  "binop_indices general shape_x shape_y shape_ret prd gid =
     (if general then binop_loop shape_x shape_y shape_ret gid prd 0 0 else Some (gid, gid))"

text \<open>
  One thread of \<^verbatim>\<open>binop\<close>; \<open>f\<close> is the meaning of the C expression \<^verbatim>\<open>code\<close> over
  \<^verbatim>\<open>a\<close> and \<^verbatim>\<open>b\<close>.
\<close>

definition binop_thread :: "bool \<Rightarrow> ('a \<Rightarrow> 'a \<Rightarrow> 'a) \<Rightarrow> 'a list \<Rightarrow> 'a list \<Rightarrow> int \<Rightarrow> int list \<Rightarrow> int list \<Rightarrow> int list \<Rightarrow> nat \<Rightarrow> 'a list \<Rightarrow> 'a list option" where
  "binop_thread general f a_g b_g prd shape_x shape_y shape_ret g res_g =
     do {
       let gid = i32 (int g);
       (idx_a, idx_b) \<leftarrow> binop_indices general shape_x shape_y shape_ret prd gid;
       a \<leftarrow> load a_g idx_a;
       b \<leftarrow> load b_g idx_b;
       store res_g gid (f a b)
     }"

text \<open>The source text of the kernel, the third component of its cache key.\<close>

definition binop_prg :: "bool \<Rightarrow> string \<Rightarrow> string" where
  "binop_prg general code =
     ''__kernel void binop(...) { int gid = get_global_id(0); '' @
     (if general then ''int idx_a = 0, idx_b = 0; for (int dim = 0; dim < n_dims; dim++) { ... } ''
      else ''int idx_a = gid, idx_b = gid;'') @
     '' float a = a_g[idx_a]; float b = b_g[idx_b]; res_g[gid] = '' @ code @ ''; }''"

subsection \<open>The whole function\<close>

definition binary_op :: "'a gpu \<Rightarrow> string \<Rightarrow> ('a \<Rightarrow> 'a \<Rightarrow> 'a) \<Rightarrow> gpubuffer \<Rightarrow> gpubuffer \<Rightarrow> (error + gpubuffer) \<times> 'a gpu" where
  "binary_op g code f x y =
     (case binary_op_shapes (shape x) (shape y) of
        Inl e \<Rightarrow> (Inl e, g)
      | Inr (shape_x, shape_y, shape_ret) \<Rightarrow>
          let (ret, g1) = buffer_new g shape_ret;
              general = (shape x \<noteq> shape y)
          in (case clbuild g1 (cl_ctx g1, ''binop'', binop_prg general code) of
                (Inl e, g2) \<Rightarrow> (Inl e, g2)
              | (Inr binop, g2) \<Rightarrow>
                  let prd = i32 (prod_list shape_ret)
                  in (case buffer_np g2 shape_x of
                        (Inl e, g3) \<Rightarrow> (Inl e, g3)
                      | (Inr bX, g3) \<Rightarrow>
                  (case buffer_np g3 shape_y of
                        (Inl e, g4) \<Rightarrow> (Inl e, g4)
                      | (Inr bY, g4) \<Rightarrow>
                  (case buffer_np g4 shape_ret of
                        (Inl e, g5) \<Rightarrow> (Inl e, g5)
                      | (Inr bR, g5) \<Rightarrow>
                     (case (floats g5 (cl x), floats g5 (cl y), floats g5 (cl ret)) of
                        (Some a_g, Some b_g, Some res_g) \<Rightarrow>
                          if prd < 0 then (Inl CLError, g5)
                          else (case run_threads
                                       (binop_thread general f a_g b_g prd shape_x shape_y shape_ret)
                                       [0..<nat prd] res_g of
                                  None \<Rightarrow> (Inl CLError, g5)
                                | Some res \<Rightarrow>
                                    (Inr ret,
                                     g5\<lparr>mem := (mem g5)[cl ret := Floats res],
                                        queue := queue g5 @ [''binop'']\<rparr>))
                      | _ \<Rightarrow> (Inl CLError, g5)))))))"

section \<open>Reference definitions\<close>

text \<open>
  The definitions of this section are not translations of the source: they say what the
  theorems below compare the source with.
\<close>

text \<open>
  Row-major order. \<open>flat_index s cs\<close> is the position of the element with coordinates
  \<open>cs\<close> in a buffer of shape \<open>s\<close>; \<open>coords s g\<close> are the coordinates of position \<open>g\<close>,
  the most significant dimension first.
\<close>

fun flat_index :: "int list \<Rightarrow> int list \<Rightarrow> int" where
  "flat_index (d # ds) (c # cs) = c * prod_list ds + flat_index ds cs"
| "flat_index _ _ = 0"

fun coords :: "int list \<Rightarrow> int \<Rightarrow> int list" where
  "coords [] g = []"
| "coords (d # ds) g = (g div prod_list ds) mod d # coords ds g"

text \<open>
  The coordinates of an operand of a broadcast, from the coordinates \<open>cs\<close> of the result:
  the coordinate of the result where the operand has the size of the result, 0 where it has
  not (its size is 1 there).
\<close>

definition operand_coords :: "int list \<Rightarrow> int list \<Rightarrow> int list \<Rightarrow> int list" where
  "operand_coords shape_x shape_ret cs =
     map (\<lambda>(d, dr, c). if d = dr then c else 0) (zip shape_x (zip shape_ret cs))"

text \<open>
  The shape of a buffer that exists on the device: OpenCL has no buffer of size 0, so every
  dimension is at least 1, and the host stores every dimension as an \<^verbatim>\<open>int32\<close>.
\<close>

definition positive :: "int list \<Rightarrow> bool" where
  "positive s = list_all (\<lambda>d. 0 < d) s"

definition dims_ok :: "int list \<Rightarrow> bool" where
  "dims_ok s = list_all (\<lambda>d. 0 < d \<and> d < 2147483648) s"

text \<open>
  The padding in the words of the spec: "pad both with leading 1s to common rank
  \<open>n = max(r_a, r_b)\<close>", the two shapes right-aligned.
\<close>

definition spec_pad_leading :: "nat \<Rightarrow> int list \<Rightarrow> int list" where
  "spec_pad_leading n s = replicate (n - length s) 1 @ s"

text \<open>
  A buffer that exists in the state \<open>g\<close>: its shape is the shape of a device buffer and its
  handle names a float buffer with one element per position of the shape.
\<close>

definition buffer_ok :: "'a gpu \<Rightarrow> gpubuffer \<Rightarrow> bool" where
  "buffer_ok g x =
     (dims_ok (shape x) \<and>
      (case floats g (cl x) of
         Some xs \<Rightarrow> int (length xs) = prod_list (shape x)
       | None \<Rightarrow> False))"

text \<open>
  The value of the cell \<open>g\<close> of the result of a broadcast: \<open>f\<close> applied to the elements of
  the operands at the coordinates of the cell.
\<close>

definition broadcast_value :: "('a \<Rightarrow> 'a \<Rightarrow> 'a) \<Rightarrow> 'a list \<Rightarrow> 'a list \<Rightarrow> int list \<Rightarrow> int list \<Rightarrow> int list \<Rightarrow> nat \<Rightarrow> 'a" where
  "broadcast_value f a_g b_g shape_x shape_y shape_ret g =
     f (a_g ! nat (flat_index shape_x (operand_coords shape_x shape_ret (coords shape_ret (int g)))))
       (b_g ! nat (flat_index shape_y (operand_coords shape_y shape_ret (coords shape_ret (int g)))))"

section \<open>Example state\<close>

text \<open>
  A state with three float buffers, for the closed instances of the theorems. The floats
  are small integers, which 4-byte floats represent exactly.
\<close>

definition gpu0 :: "int gpu" where
  "gpu0 = \<lparr>mem = [Floats [10, 20], Floats [1, 2, 3, 4, 5, 6], Floats [7, 8, 9]],
           cache = [], compiles = 0, queue = [], cl_ctx = 0,
           compiler = (\<lambda>prg. True), junk = 0\<rparr>"

definition buf_a :: gpubuffer where "buf_a = \<lparr>shape = [2, 1], cl = 0\<rparr>"
definition buf_b :: gpubuffer where "buf_b = \<lparr>shape = [2, 3], cl = 1\<rparr>"
definition buf_c :: gpubuffer where "buf_c = \<lparr>shape = [3], cl = 2\<rparr>"

section \<open>Reference definitions for the kernel cache\<close>




section \<open>Reshape\<close>

text \<open>
  \<^verbatim>\<open>np.prod\<close> of a shape whose entries fit \<^verbatim>\<open>int64\<close> is an \<^verbatim>\<open>int64\<close>: the product wraps
  around. The negation of an \<^verbatim>\<open>int64\<close> wraps as well, and \<^verbatim>\<open>//\<close> is the floor division,
  with 0 for a division by zero (numpy warns and goes on).
  \<^verbatim>\<open>-np.prod(x.shape) // np.prod(shape)\<close> is \<^verbatim>\<open>(-np.prod(x.shape)) // np.prod(shape)\<close>.
\<close>

definition np_prod :: "int list \<Rightarrow> int" where
  "np_prod s = i64 (prod_list s)"


definition np_floordiv :: "int \<Rightarrow> int \<Rightarrow> int" where
  "np_floordiv a b = (if b = 0 then 0 else i64 (a div b))"


definition Reshape_backward :: "int list \<Rightarrow> gpubuffer \<Rightarrow> gpubuffer" where
  "Reshape_backward in_shape grad_output = GPUBuffer_alias in_shape grad_output"

section \<open>reduce\_op, Sum and unbroadcast\<close>

text \<open>
  \<^verbatim>\<open>osize[list(axis)] = 1\<close> on a numpy array of \<open>n\<close> entries: an index \<open>i\<close> with
  \<open>-n \<le> i < n\<close> is accepted, a negative one counting from the end, and any other index
  raises \<^verbatim>\<open>IndexError\<close>.
\<close>

definition np_index :: "nat \<Rightarrow> int \<Rightarrow> error + nat" where
  "np_index n i =
     (if - int n \<le> i \<and> i < int n then Inr (nat (if i < 0 then i + int n else i))
      else Inl IndexError)"

fun set_ones :: "int list \<Rightarrow> int list \<Rightarrow> error + int list" where
  "set_ones osize [] = Inr osize"
| "set_ones osize (a # axis) =
     (case np_index (length osize) a of
        Inl e \<Rightarrow> Inl e
      | Inr i \<Rightarrow> set_ones (osize[i := 1]) axis)"

text \<open>
  The kernel \<^verbatim>\<open>reduce\<close>. \<open>reduce_index\<close> is the inner loop over the dimensions, which builds
  the index into \<^verbatim>\<open>a_g\<close> from \<^verbatim>\<open>gid\<close> (dimensions that are kept) and \<^verbatim>\<open>x\<close> (dimensions
  that are reduced); \<open>reduce_sum\<close> is the loop \<^verbatim>\<open>for (int x = 0; x < sz; x++)\<close>, with \<open>step\<close>
  the meaning of the statement \<^verbatim>\<open>code\<close> on \<^verbatim>\<open>out\<close> and \<^verbatim>\<open>a\<close>; \<open>reduce_thread\<close> is one
  thread, with \<open>fin\<close> the meaning of the expression \<^verbatim>\<open>code2\<close>.
\<close>

fun reduce_index :: "int list \<Rightarrow> int list \<Rightarrow> int \<Rightarrow> int \<Rightarrow> int \<Rightarrow> int \<Rightarrow> int \<Rightarrow> int option" where
  "reduce_index (dx # shape_x) (dr # shape_ret) gid x tprod tsz idx =
     (let idx' = c_mul idx dx in
      if dx = dr then
        do {
          tprod' \<leftarrow> c_div tprod dx;
          q \<leftarrow> c_div gid tprod';
          r \<leftarrow> c_mod q dx;
          reduce_index shape_x shape_ret gid x tprod' tsz (c_add idx' r)
        }
      else
        do {
          tsz' \<leftarrow> c_div tsz dx;
          q \<leftarrow> c_div x tsz';
          r \<leftarrow> c_mod q dx;
          reduce_index shape_x shape_ret gid x tprod tsz' (c_add idx' r)
        })"
| "reduce_index _ _ gid x tprod tsz idx = Some idx"

fun reduce_sum :: "('a \<Rightarrow> 'a \<Rightarrow> 'a) \<Rightarrow> 'a list \<Rightarrow> int list \<Rightarrow> int list \<Rightarrow> int \<Rightarrow> int \<Rightarrow> int \<Rightarrow> int list \<Rightarrow> 'a \<Rightarrow> 'a option" where
  "reduce_sum step a_g shape_x shape_ret gid prd sz [] out = Some out"
| "reduce_sum step a_g shape_x shape_ret gid prd sz (x # xs) out =
     do {
       idx \<leftarrow> reduce_index shape_x shape_ret gid x prd sz 0;
       a \<leftarrow> load a_g idx;
       reduce_sum step a_g shape_x shape_ret gid prd sz xs (step out a)
     }"

definition reduce_thread :: "('a \<Rightarrow> 'a \<Rightarrow> 'a) \<Rightarrow> ('a \<Rightarrow> 'a) \<Rightarrow> ('a::zero) list \<Rightarrow> int \<Rightarrow> int \<Rightarrow> int list \<Rightarrow> int list \<Rightarrow> nat \<Rightarrow> 'a list \<Rightarrow> 'a list option" where
  "reduce_thread step fin a_g sz prd shape_x shape_ret g res_g =
     do {
       let gid = i32 (int g);
       out \<leftarrow> reduce_sum step a_g shape_x shape_ret gid prd sz (map int [0..<nat sz]) 0;
       store res_g gid (fin out)
     }"

definition reduce_prg :: "string \<Rightarrow> string \<Rightarrow> string" where
  "reduce_prg code code2 =
     ''__kernel void reduce(...) { int gid = get_global_id(0); float out = 0.0; '' @
     ''for (int x = 0; x < sz; x++) { ... float a = a_g[idx]; '' @ code @ ''; } res_g[gid] = '' @
     code2 @ ''; }''"

text \<open>
  \<^verbatim>\<open>reduce_op\<close>, with \<open>axis = None\<close> for the full reduction, \<^verbatim>\<open>Sum.forward\<close>, which sets
  the shape of the result after the call, and (below) \<^verbatim>\<open>unbroadcast\<close>.
\<close>

definition reduce_op :: "('a::zero) gpu \<Rightarrow> string \<Rightarrow> ('a \<Rightarrow> 'a \<Rightarrow> 'a) \<Rightarrow> string \<Rightarrow> ('a \<Rightarrow> 'a) \<Rightarrow> gpubuffer \<Rightarrow> int list option \<Rightarrow> (error + gpubuffer) \<times> 'a gpu" where
  "reduce_op g code step code2 fin inp axis =
     (case (case axis of
              None \<Rightarrow> Inr (replicate (length (shape inp)) 1)
            | Some ax \<Rightarrow> set_ones (shape inp) ax) of
        Inl e \<Rightarrow> (Inl e, g)
      | Inr osize \<Rightarrow>
          let (ret0, g1) = buffer_new g osize;
              ret = (case axis of None \<Rightarrow> ret0\<lparr>shape := [1]\<rparr> | Some ax \<Rightarrow> ret0)
          in (case clbuild g1 (cl_ctx g1, ''reduce'', reduce_prg code code2) of
                (Inl e, g2) \<Rightarrow> (Inl e, g2)
              | (Inr reduce, g2) \<Rightarrow>
                  let sz = i32 (np_floordiv (np_prod (shape inp)) (np_prod osize));
                      prd = i32 (np_prod osize)
                  in (case buffer_np g2 (map i32 (shape inp)) of
                        (Inl e, g3) \<Rightarrow> (Inl e, g3)
                      | (Inr bX, g3) \<Rightarrow>
                  (case buffer_np g3 (map i32 osize) of
                        (Inl e, g4) \<Rightarrow> (Inl e, g4)
                      | (Inr bR, g4) \<Rightarrow>
                     (case (floats g4 (cl inp), floats g4 (cl ret)) of
                        (Some a_g, Some res_g) \<Rightarrow>
                          if np_prod osize < 0 then (Inl CLError, g4)
                          else (case run_threads
                                       (reduce_thread step fin a_g sz prd
                                          (map i32 (shape inp)) (map i32 osize))
                                       [0..<nat (np_prod osize)] res_g of
                                  None \<Rightarrow> (Inl CLError, g4)
                                | Some res \<Rightarrow>
                                    (Inr ret,
                                     g4\<lparr>mem := (mem g4)[cl ret := Floats res],
                                        queue := queue g4 @ [''reduce'']\<rparr>))
                      | _ \<Rightarrow> (Inl CLError, g4))))))"

definition Sum_forward :: "('a::{zero,plus}) gpu \<Rightarrow> gpubuffer \<Rightarrow> int list option \<Rightarrow> (error + gpubuffer) \<times> 'a gpu" where
  "Sum_forward g input axis =
     (case reduce_op g ''out += a'' (+) ''out'' (\<lambda>out. out) input axis of
        (Inl e, g') \<Rightarrow> (Inl e, g')
      | (Inr ret, g') \<Rightarrow>
          (Inr (case axis of
                  None \<Rightarrow> ret
                | Some ax \<Rightarrow>
                    ret\<lparr>shape := map (\<lambda>i. shape input ! i)
                                   (filter (\<lambda>i. int i \<notin> set ax) [0..<length (shape input)])\<rparr>),
           g'))"

text \<open>
  Reference definitions for the reduction (not translations of the source).
  \<open>reduces_to shape_x shape_ret\<close>: every dimension of the result has the size of the input
  or size 1. \<open>summed_shape\<close>: the sizes of the dimensions that are summed over, 1 for the
  others. \<open>reduction_value\<close>: the cell \<open>g\<close> of the result, which folds \<open>step\<close> over the
  elements of the input whose coordinates are those of the cell in the kept dimensions, in
  row-major order of their coordinates in the other dimensions.
\<close>

definition summed_shape :: "int list \<Rightarrow> int list \<Rightarrow> int list" where
  "summed_shape shape_x shape_ret =
     map (\<lambda>(dx, dr). if dx = dr then 1 else dx) (zip shape_x shape_ret)"

definition reduction_value :: "('a \<Rightarrow> 'a \<Rightarrow> 'a) \<Rightarrow> ('a \<Rightarrow> 'a) \<Rightarrow> ('a::zero) list \<Rightarrow> int list \<Rightarrow> int list \<Rightarrow> nat \<Rightarrow> 'a" where
  "reduction_value step fin a_g shape_x shape_ret g =
     fin (foldl step 0
       (map (\<lambda>x. a_g ! nat (flat_index shape_x
                 (map (\<lambda>(c, r). c + r)
                    (zip (coords shape_ret (int g))
                         (coords (summed_shape shape_x shape_ret) (int x))))))
          [0..<nat (prod_list (summed_shape shape_x shape_ret))]))"

definition reduces_to :: "int list \<Rightarrow> int list \<Rightarrow> bool" where
  "reduces_to shape_x shape_ret = list_all2 (\<lambda>dx dr. dr = dx \<or> dr = 1) shape_x shape_ret"

text \<open>
  The list comprehension of \<^verbatim>\<open>unbroadcast\<close>, over \<open>i\<close> in \<^verbatim>\<open>range(len(in_sh))\<close>:
  \<^verbatim>\<open>out.shape[i]\<close> is read only where \<^verbatim>\<open>in_sh[i] == 1\<close>, and raises outside the tuple.
\<close>

fun sum_axis :: "int list \<Rightarrow> int list \<Rightarrow> nat list \<Rightarrow> error + int list" where
  "sum_axis in_sh out_shape [] = Inr []"
| "sum_axis in_sh out_shape (i # js) =
     (if in_sh ! i = 1 then
        (if i < length out_shape then
           (case sum_axis in_sh out_shape js of
              Inl e \<Rightarrow> Inl e
            | Inr ax \<Rightarrow> Inr (if 1 < out_shape ! i then int i # ax else ax))
         else Inl IndexError)
      else sum_axis in_sh out_shape js)"

definition unbroadcast :: "('a::{zero,plus}) gpu \<Rightarrow> gpubuffer \<Rightarrow> int list \<Rightarrow> (error + gpubuffer) \<times> 'a gpu" where
  "unbroadcast g out in_sh =
     (if in_sh \<noteq> [1] then
        (case sum_axis in_sh (shape out) [0..<length in_sh] of
           Inl e \<Rightarrow> (Inl e, g)
         | Inr ax \<Rightarrow> reduce_op g ''out += a'' (+) ''out'' (\<lambda>out. out) out (Some ax))
      else reduce_op g ''out += a'' (+) ''out'' (\<lambda>out. out) out None)"

text \<open>
  Reference definition: the sum-reduction of a buffer \<open>data\<close> of shape \<open>s\<close> over the set
  of axes \<open>A\<close>. The result keeps the rank; its dimensions in \<open>A\<close> have size 1. Each cell is
  \<open>0 + d\<^sub>1 + d\<^sub>2 + \<dots>\<close> over the elements with the coordinates of the cell outside \<open>A\<close>,
  in row-major order. Nothing is assumed of \<open>+\<close> and \<open>0\<close>: for floats the order of the
  additions is part of the result.
\<close>

definition axis_sum :: "(nat \<Rightarrow> bool) \<Rightarrow> int list \<Rightarrow> ('a::{zero,plus}) list \<Rightarrow> 'a list" where
  "axis_sum A s data =
     (let kept = map (\<lambda>i. if A i then 1 else s ! i) [0..<length s];
          summed = map (\<lambda>i. if A i then s ! i else 1) [0..<length s]
      in map (\<lambda>g. foldl (+) 0
                (map (\<lambda>x. data ! nat (flat_index s
                          (map (\<lambda>(c, r). c + r)
                             (zip (coords kept (int g)) (coords summed (int x))))))
                   [0..<nat (prod_list summed)]))
           [0..<nat (prod_list kept)])"

text \<open>A state with one buffer, the gradient \<open>ones(3, 4)\<close>.\<close>

definition gpu1 :: "int gpu" where
  "gpu1 = \<lparr>mem = [Floats [1, 1, 1, 1, 1, 1, 1, 1, 1, 1, 1, 1]],
           cache = [], compiles = 0, queue = [], cl_ctx = 0,
           compiler = (\<lambda>prg. True), junk = 0\<rparr>"

definition grad_ones :: gpubuffer where "grad_ones = \<lparr>shape = [3, 4], cl = 0\<rparr>"

section \<open>Buffers of other ranks\<close>

text \<open>
  A buffer of rank 1 on the first buffer of \<open>gpu0\<close>, and a state with one buffer of rank 0
  (one float, the empty shape), as \<^verbatim>\<open>Reshape.forward\<close> with the target \<^verbatim>\<open>()\<close> returns it.
\<close>

definition buf_d :: gpubuffer where "buf_d = \<lparr>shape = [2], cl = 0\<rparr>"

definition gpu_s :: "int gpu" where
  "gpu_s = \<lparr>mem = [Floats [7]], cache = [], compiles = 0, queue = [], cl_ctx = 0,
            compiler = (\<lambda>prg. True), junk = 0\<rparr>"

definition buf_s :: gpubuffer where "buf_s = \<lparr>shape = [], cl = 0\<rparr>"

section \<open>Reference definitions for the requests of a process\<close>


text \<open>
  Distinct kernel sources that build: \<^verbatim>\<open>binary_op\<close> with the C expressions \<^verbatim>\<open>a\<close>, \<^verbatim>\<open>a+b\<close>,
  \<^verbatim>\<open>a+b+b\<close> and so on as \<^verbatim>\<open>code\<close>. \<open>evicting_requests\<close> asks for the first key, for 128
  others and for the first key again.
\<close>

definition code_n :: "nat \<Rightarrow> string" where
  "code_n i = ''a'' @ concat (replicate i ''+b'')"

definition key_n :: "nat \<Rightarrow> key" where
  "key_n i = (0, ''binop'', binop_prg True (code_n i))"


section \<open>Facts about the machine integers\<close>

lemma i32_id: "in_i32 v \<Longrightarrow> i32 v = v"
  by (simp add: i32_def in_i32_def)

lemma i64_id: "in_i64 v \<Longrightarrow> i64 v = v"
  by (simp add: i64_def in_i64_def)

lemma np_prod_small: "0 \<le> prod_list s \<Longrightarrow> prod_list s < 2147483648 \<Longrightarrow> np_prod s = prod_list s"
  by (simp add: np_prod_def i64_def)

lemma buffer_np_ok:
  "a \<noteq> [] \<Longrightarrow> buffer_np g a = (Inr (length (mem g)), g\<lparr>mem := mem g @ [Ints a]\<rparr>)"
  by (simp add: buffer_np_def alloc_def)


lemma positive_simps [simp]:
  "positive []" "positive (d # ds) = (0 < d \<and> positive ds)"
  by (simp_all add: positive_def)

lemma prod_list_positive: "positive s \<Longrightarrow> 0 < prod_list s"
  by (induction s) simp_all

lemma sdiv_nonneg: "0 \<le> a \<Longrightarrow> 0 < b \<Longrightarrow> a sdiv b = a div (b::int)"
  by (simp add: signed_divide_int_def sgn_if)

lemma smod_nonneg: "0 \<le> a \<Longrightarrow> 0 < b \<Longrightarrow> a smod b = a mod (b::int)"
  by (simp add: signed_modulo_int_def sgn_if)

lemma i32_nonneg: "0 \<le> v \<Longrightarrow> v < 2147483648 \<Longrightarrow> i32 v = v"
  by (simp add: i32_def)

lemma int_div_le: "0 \<le> a \<Longrightarrow> 0 < b \<Longrightarrow> a div b \<le> (a::int)"
  using zdiv_mono2 [of a 1 b] by simp

lemma c_div_nonneg:
  assumes "0 \<le> a" "a < 2147483648" "0 < b"
  shows "c_div a b = Some (a div b)"
proof -
  have "a div b \<le> a" using assms by (simp add: int_div_le)
  moreover have "0 \<le> a div b" using assms by (simp add: pos_imp_zdiv_nonneg_iff)
  ultimately have "i32 (a div b) = a div b" using assms by (intro i32_nonneg) simp_all
  then show ?thesis using assms by (simp add: c_div_def sdiv_nonneg)
qed

lemma c_mod_nonneg:
  assumes "0 \<le> a" "a < 2147483648" "0 < b"
  shows "c_mod a b = Some (a mod b)"
proof -
  have "a mod b \<le> a" using assms by (simp add: zmod_le_nonneg_dividend)
  moreover have "0 \<le> a mod b" using assms by simp
  ultimately have "i32 (a mod b) = a mod b" using assms by (intro i32_nonneg) simp_all
  then show ?thesis using assms by (simp add: c_mod_def smod_nonneg)
qed

lemma c_mul_add_nonneg:
  assumes "0 \<le> a" "0 \<le> d" "0 \<le> r" "a * d + r < 2147483648"
  shows "c_add (c_mul a d) r = a * d + r"
proof -
  have "0 \<le> a * d" using assms by simp
  moreover have "a * d < 2147483648" using assms by linarith
  ultimately have "i32 (a * d) = a * d" by (rule i32_nonneg)
  moreover have "i32 (a * d + r) = a * d + r" using assms \<open>0 \<le> a * d\<close> by (intro i32_nonneg) simp_all
  ultimately show ?thesis by (simp add: c_add_def c_mul_def)
qed

lemma binop_loop_flat_index:
  assumes "length sx = length sy" "length sy = length sr"
    and "positive sx" "positive sy" "positive sr"
    and "prod_list sr < 2147483648" "0 \<le> gid" "gid < 2147483648"
    and "0 \<le> ia" "(ia + 1) * prod_list sx \<le> 2147483648"
    and "0 \<le> ib" "(ib + 1) * prod_list sy \<le> 2147483648"
  shows "binop_loop sx sy sr gid (prod_list sr) ia ib =
    Some (ia * prod_list sx + flat_index sx (map (\<lambda>(c, d). c mod d) (zip (coords sr gid) sx)),
          ib * prod_list sy + flat_index sy (map (\<lambda>(c, d). c mod d) (zip (coords sr gid) sy)))"
  using assms
proof (induction sx sy sr arbitrary: ia ib rule: list_induct3)
  case Nil
  then show ?case by simp
next
  case (Cons dx sx dy sy dr sr)
  let ?P = "prod_list sr"
  let ?c = "(gid div ?P) mod dr"
  from Cons.prems have pos: "0 < dx" "0 < dy" "0 < dr" "positive sx" "positive sy" "positive sr"
    by simp_all
  have P: "0 < ?P" and Px: "0 < prod_list sx" and Py: "0 < prod_list sy"
    using pos by (simp_all add: prod_list_positive)
  have Ple: "?P \<le> dr * ?P" using pos P by simp
  have tot: "dr * ?P < 2147483648" using Cons.prems by simp
  have s1: "c_div (dr * ?P) dr = Some ?P"
    using c_div_nonneg [of "dr * ?P" dr] pos P tot by simp
  have q0: "0 \<le> gid div ?P" using Cons.prems P by (simp add: pos_imp_zdiv_nonneg_iff)
  have qle: "gid div ?P \<le> gid" using Cons.prems P by (simp add: int_div_le)
  have s2: "c_div gid ?P = Some (gid div ?P)"
    using c_div_nonneg [of gid ?P] Cons.prems P by simp
  have s3: "c_mod (gid div ?P) dr = Some ?c"
    using c_mod_nonneg [of "gid div ?P" dr] q0 qle Cons.prems pos by simp
  have c0: "0 \<le> ?c" using pos by simp
  have cle: "?c \<le> gid div ?P" using q0 pos by (simp add: zmod_le_nonneg_dividend)
  have s4: "c_mod ?c dx = Some (?c mod dx)"
    using c_mod_nonneg [of ?c dx] c0 cle qle Cons.prems pos by simp
  have s5: "c_mod ?c dy = Some (?c mod dy)"
    using c_mod_nonneg [of ?c dy] c0 cle qle Cons.prems pos by simp
  define ia' where "ia' = ia * dx + ?c mod dx"
  define ib' where "ib' = ib * dy + ?c mod dy"
  have ra: "0 \<le> ?c mod dx" "?c mod dx < dx" using pos by simp_all
  have rb: "0 \<le> ?c mod dy" "?c mod dy < dy" using pos by simp_all
  have ia0: "0 \<le> ia'" using Cons.prems pos ra by (simp add: ia'_def)
  have ib0: "0 \<le> ib'" using Cons.prems pos rb by (simp add: ib'_def)
  have "ia' + 1 \<le> (ia + 1) * dx" using ra by (simp add: ia'_def algebra_simps)
  then have "(ia' + 1) * prod_list sx \<le> ((ia + 1) * dx) * prod_list sx"
    using Px by (simp add: mult_right_mono)
  then have bx: "(ia' + 1) * prod_list sx \<le> 2147483648"
    using Cons.prems by (simp add: mult.assoc)
  have "ib' + 1 \<le> (ib + 1) * dy" using rb by (simp add: ib'_def algebra_simps)
  then have "(ib' + 1) * prod_list sy \<le> ((ib + 1) * dy) * prod_list sy"
    using Py by (simp add: mult_right_mono)
  then have bY: "(ib' + 1) * prod_list sy \<le> 2147483648"
    using Cons.prems by (simp add: mult.assoc)
  have "ia' + 1 \<le> (ia' + 1) * prod_list sx" using ia0 Px by (simp add: mult_le_cancel_left1)
  then have ia_lt: "ia' < 2147483648" using bx by linarith
  have "ib' + 1 \<le> (ib' + 1) * prod_list sy" using ib0 Py by (simp add: mult_le_cancel_left1)
  then have ib_lt: "ib' < 2147483648" using bY by linarith
  have s6: "c_add (c_mul ia dx) (?c mod dx) = ia'"
    using c_mul_add_nonneg [of ia dx "?c mod dx"] Cons.prems pos ra ia_lt by (simp add: ia'_def)
  have s7: "c_add (c_mul ib dy) (?c mod dy) = ib'"
    using c_mul_add_nonneg [of ib dy "?c mod dy"] Cons.prems pos rb ib_lt by (simp add: ib'_def)
  have Plt: "?P < 2147483648" using Ple tot by linarith
  have IH: "binop_loop sx sy sr gid ?P ia' ib' =
    Some (ia' * prod_list sx + flat_index sx (map (\<lambda>(c, d). c mod d) (zip (coords sr gid) sx)),
          ib' * prod_list sy + flat_index sy (map (\<lambda>(c, d). c mod d) (zip (coords sr gid) sy)))"
    using Cons.prems pos Plt ia0 ib0 bx bY
    by (intro Cons.IH) simp_all
  show ?case
    by (simp add: s1 s2 s3 s4 s5 s6 s7 IH) (simp add: ia'_def ib'_def algebra_simps)
qed


lemma coords_length [simp]: "length (coords s g) = length s"
  by (induction s) simp_all

lemma flat_index_mod_bounds:
  "positive s \<Longrightarrow> length cs = length s \<Longrightarrow>
   0 \<le> flat_index s (map (\<lambda>(c, d). c mod d) (zip cs s)) \<and>
   flat_index s (map (\<lambda>(c, d). c mod d) (zip cs s)) < prod_list s"
proof (induction s arbitrary: cs)
  case Nil
  then show ?case by simp
next
  case (Cons d s)
  then obtain c cs' where cs: "cs = c # cs'" by (cases cs) auto
  let ?r = "flat_index s (map (\<lambda>(c, d). c mod d) (zip cs' s))"
  from Cons cs have IH: "0 \<le> ?r" "?r < prod_list s" by simp_all
  from Cons.prems have d: "0 < d" and P: "0 < prod_list s" by (simp_all add: prod_list_positive)
  have m: "0 \<le> c mod d" "c mod d + 1 \<le> d"
    using pos_mod_bound [of d c] pos_mod_sign [of d c] d by linarith+
  have "(c mod d + 1) * prod_list s \<le> d * prod_list s"
    using m P by (intro mult_right_mono) simp_all
  then have "c mod d * prod_list s + ?r < d * prod_list s"
    using IH by (simp add: algebra_simps)
  moreover have "0 \<le> c mod d * prod_list s" using m P by simp
  ultimately show ?case using IH cs by simp
qed

lemma flat_index_coords_mod:
  "positive s \<Longrightarrow> flat_index s (coords s g) = g mod prod_list s"
proof (induction s)
  case Nil
  then show ?case by simp
next
  case (Cons d s)
  then have d: "0 \<le> d" and IH: "flat_index s (coords s g) = g mod prod_list s" by simp_all
  have "g mod (prod_list s * d) = prod_list s * (g div prod_list s mod d) + g mod prod_list s"
    using d by (rule zmod_zmult2_eq)
  then show ?case using IH by (simp add: mult.commute)
qed

lemma flat_index_coords:
  "positive s \<Longrightarrow> 0 \<le> g \<Longrightarrow> g < prod_list s \<Longrightarrow> flat_index s (coords s g) = g"
  by (simp add: flat_index_coords_mod)

lemma coords_bounds:
  "positive s \<Longrightarrow> i < length s \<Longrightarrow> 0 \<le> coords s g ! i \<and> coords s g ! i < s ! i"
proof (induction s arbitrary: i)
  case Nil
  then show ?case by simp
next
  case (Cons d s)
  then show ?case by (cases i) simp_all
qed

lemma mod_operand_coords:
  assumes "positive sr" "length sx = length sr"
    and "\<forall>i<length sr. sx ! i = sr ! i \<or> sx ! i = 1"
  shows "map (\<lambda>(c, d). c mod d) (zip (coords sr g) sx) = operand_coords sx sr (coords sr g)"
proof (rule nth_equalityI)
  show "length (map (\<lambda>(c, d). c mod d) (zip (coords sr g) sx)) =
        length (operand_coords sx sr (coords sr g))"
    using assms by (simp add: operand_coords_def)
next
  fix i assume "i < length (map (\<lambda>(c, d). c mod d) (zip (coords sr g) sx))"
  then have i: "i < length sr" using assms by simp
  have b: "0 \<le> coords sr g ! i" "coords sr g ! i < sr ! i"
    using coords_bounds [OF assms(1) i] by simp_all
  from assms i have "sx ! i = sr ! i \<or> sx ! i = 1" by simp
  then show "map (\<lambda>(c, d). c mod d) (zip (coords sr g) sx) ! i =
             operand_coords sx sr (coords sr g) ! i"
    using i assms b by (auto simp: operand_coords_def)
qed


lemma dims_ok_positive: "dims_ok s \<Longrightarrow> positive s"
  by (induction s) (simp_all add: dims_ok_def)

lemma dims_ok_i32: "dims_ok s \<Longrightarrow> map i32 s = s"
  by (induction s) (simp_all add: dims_ok_def i32_nonneg)

lemma positive_append: "positive (a @ b) = (positive a \<and> positive b)"
  by (simp add: positive_def)

lemma positive_replicate_1: "positive (replicate n 1)"
  by (simp add: positive_def list_all_length)

lemma positive_nth: "positive s \<Longrightarrow> i < length s \<Longrightarrow> 0 < s ! i"
  by (simp add: positive_def list_all_length)

lemma set_prefix_dims_ok:
  "dims_ok s \<Longrightarrow> length s \<le> n \<Longrightarrow> set_prefix (np_ones n) s = s @ replicate (n - length s) 1"
  by (simp add: set_prefix_def np_ones_def dims_ok_i32)

lemma prod_list_replicate_1: "prod_list (replicate n (1::int)) = 1"
  by (induction n) simp_all

lemma np_maximum_length: "length sx = length sy \<Longrightarrow> length (np_maximum sx sy) = length sx"
  by (simp add: np_maximum_def)

lemma np_maximum_nth':
  "length sx = length sy \<Longrightarrow> i < length sx \<Longrightarrow> np_maximum sx sy ! i = max (sx ! i) (sy ! i)"
  by (simp add: np_maximum_def)

lemma broadcastable_nth':
  "length sx = length sy \<Longrightarrow> broadcastable sx sy \<Longrightarrow> i < length sx \<Longrightarrow>
   sx ! i = 1 \<or> sy ! i = 1 \<or> sx ! i = sy ! i"
  by (auto simp: broadcastable_def list_all_length)

lemma binary_op_shapes_Inr:
  assumes "dims_ok xshape" "dims_ok yshape"
    and "binary_op_shapes xshape yshape = Inr (sx, sy, sr)"
  shows "length sx = length sy" "length sy = length sr"
    "positive sx" "positive sy" "positive sr"
    "prod_list sx = prod_list xshape" "prod_list sy = prod_list yshape"
    "\<forall>i<length sr. (sx ! i = sr ! i \<or> sx ! i = 1) \<and> (sy ! i = sr ! i \<or> sy ! i = 1)"
    "sr = np_maximum sx sy" "broadcastable sx sy"
    "sx = xshape @ replicate (max (length xshape) (length yshape) - length xshape) 1"
    "sy = yshape @ replicate (max (length xshape) (length yshape) - length yshape) 1"
proof -
  let ?n = "max (length xshape) (length yshape)"
  from assms have sx: "sx = xshape @ replicate (?n - length xshape) 1"
    and sy: "sy = yshape @ replicate (?n - length yshape) 1"
    and sr: "sr = np_maximum sx sy" and bc: "broadcastable sx sy"
    by (auto simp: binary_op_shapes_def Let_def set_prefix_dims_ok split: if_splits)
  show "sx = xshape @ replicate (?n - length xshape) 1" by (rule sx)
  show "sy = yshape @ replicate (?n - length yshape) 1" by (rule sy)
  show "sr = np_maximum sx sy" by (rule sr)
  show "broadcastable sx sy" by (rule bc)
  show len: "length sx = length sy" by (simp add: sx sy)
  then show len2: "length sy = length sr" by (simp add: sr np_maximum_length)
  show px: "positive sx" using assms(1)
    by (simp add: sx positive_append positive_replicate_1 dims_ok_positive)
  show py: "positive sy" using assms(2)
    by (simp add: sy positive_append positive_replicate_1 dims_ok_positive)
  have nth: "\<And>i. i < length sr \<Longrightarrow> 0 < sx ! i \<and> 0 < sy ! i \<and> sr ! i = max (sx ! i) (sy ! i)
       \<and> (sx ! i = 1 \<or> sy ! i = 1 \<or> sx ! i = sy ! i)"
    using len len2 px py bc by (simp add: sr np_maximum_nth' positive_nth broadcastable_nth')
  show "positive sr"
    unfolding positive_def list_all_length using nth by (simp add: max_def)
  show "prod_list sx = prod_list xshape" by (simp add: sx prod_list_replicate_1)
  show "prod_list sy = prod_list yshape" by (simp add: sy prod_list_replicate_1)
  show "\<forall>i<length sr. (sx ! i = sr ! i \<or> sx ! i = 1) \<and> (sy ! i = sr ! i \<or> sy ! i = 1)"
  proof (intro allI impI)
    fix i assume "i < length sr"
    from nth [OF this] show "(sx ! i = sr ! i \<or> sx ! i = 1) \<and> (sy ! i = sr ! i \<or> sy ! i = 1)"
      by (auto simp: max_def)
  qed
qed

lemma prod_list_le_maximum:
  assumes "length sx = length sr" "positive sx"
    and "\<forall>i<length sr. sx ! i = sr ! i \<or> sx ! i = 1" "positive sr"
  shows "prod_list sx \<le> prod_list sr"
  using assms
proof (induction sx sr rule: list_induct2)
  case Nil
  then show ?case by simp
next
  case (Cons dx sx dr sr)
  from Cons.prems have h: "dx = dr \<or> dx = 1" by auto
  from Cons.prems have t: "\<forall>i<length sr. sx ! i = sr ! i \<or> sx ! i = 1" by auto
  from Cons have IH: "prod_list sx \<le> prod_list sr" using t by simp
  from Cons.prems have pos: "0 < dx" "0 < dr" "0 < prod_list sx" "0 < prod_list sr"
    by (simp_all add: prod_list_positive)
  have "dx \<le> dr" using h pos by auto
  then have "dx * prod_list sx \<le> dr * prod_list sr"
    using IH pos by (intro mult_mono) simp_all
  then show ?case by simp
qed

section \<open>The index mapping of a broadcast (C2)\<close>

text \<open>
  Claim C2. Let the shapes of two operands be broadcast-compatible, with padded shapes
  \<open>shape_x\<close>, \<open>shape_y\<close> and result shape \<open>shape_ret\<close>, and let \<open>gid\<close> be a flat index
  of the result. The loop of the kernel, started with the product of the result shape,
  divides the remaining product by each size of the result in turn, takes
  \<open>idx_ret = (gid / prod) % shape_ret[dim]\<close> and accumulates
  \<open>idx = idx * size + idx_ret % size\<close> for each operand. It returns, for both operands
  alike, the row-major position of the element whose coordinate is the coordinate of the
  result where the operand has the size of the result, and 0 where the operand has size 1;
  and every dimension of an operand is of one of these two kinds. The shapes are those of
  buffers on the device (every dimension at least 1) and the result has fewer than
  \<open>2^31\<close> elements, so that no C \<^verbatim>\<open>int\<close> overflows.
\<close>

theorem binop_loop_broadcast:
  assumes "dims_ok xshape" "dims_ok yshape"
    and "binary_op_shapes xshape yshape = Inr (shape_x, shape_y, shape_ret)"
    and "prod_list shape_ret < 2147483648"
    and "0 \<le> gid" "gid < prod_list shape_ret"
  shows "binop_loop shape_x shape_y shape_ret gid (i32 (prod_list shape_ret)) 0 0 =
      Some (flat_index shape_x (operand_coords shape_x shape_ret (coords shape_ret gid)),
            flat_index shape_y (operand_coords shape_y shape_ret (coords shape_ret gid)))
    \<and> (\<forall>i<length shape_ret.
          (shape_x ! i = shape_ret ! i \<or> shape_x ! i = 1) \<and>
          (shape_y ! i = shape_ret ! i \<or> shape_y ! i = 1))"
proof -
  note S = binary_op_shapes_Inr [OF assms(1-3)]
  have Pr: "0 < prod_list shape_ret" using S(5) by (rule prod_list_positive)
  have prd: "i32 (prod_list shape_ret) = prod_list shape_ret"
    using Pr assms(4) by (intro i32_nonneg) simp_all
  have lx: "prod_list shape_x \<le> prod_list shape_ret"
    using S by (intro prod_list_le_maximum) simp_all
  have ly: "prod_list shape_y \<le> prod_list shape_ret"
    using S by (intro prod_list_le_maximum) simp_all
  have "binop_loop shape_x shape_y shape_ret gid (prod_list shape_ret) 0 0 =
    Some (0 * prod_list shape_x + flat_index shape_x (map (\<lambda>(c, d). c mod d) (zip (coords shape_ret gid) shape_x)),
          0 * prod_list shape_y + flat_index shape_y (map (\<lambda>(c, d). c mod d) (zip (coords shape_ret gid) shape_y)))"
    using S(1-5) assms(4-6) lx ly by (intro binop_loop_flat_index) simp_all
  moreover have "map (\<lambda>(c, d). c mod d) (zip (coords shape_ret gid) shape_x) =
      operand_coords shape_x shape_ret (coords shape_ret gid)"
    using S by (intro mod_operand_coords) simp_all
  moreover have "map (\<lambda>(c, d). c mod d) (zip (coords shape_ret gid) shape_y) =
      operand_coords shape_y shape_ret (coords shape_ret gid)"
    using S by (intro mod_operand_coords) simp_all
  ultimately show ?thesis using S(8) by (simp add: prd)
qed

theorem binop_loop_broadcast_witness:
  "dims_ok [2, 1] \<and> dims_ok [2, 3] \<and>
   binary_op_shapes [2, 1] [2, 3] = Inr ([2, 1], [2, 3], [2, 3]) \<and>
   binop_loop [2, 1] [2, 3] [2, 3] 4 (i32 (prod_list [2, 3])) 0 0 = Some (1, 4)"
proof -
  have d: "dims_ok [2, 1]" "dims_ok [2, 3]" by (simp_all add: dims_ok_def)
  have sh: "binary_op_shapes [2, 1] [2, 3] = Inr ([2, 1], [2, 3], [2, 3])"
    by (simp add: binary_op_shapes_def set_prefix_def np_ones_def broadcastable_def
        np_maximum_def i32_def Let_def)
  have "binop_loop [2, 1] [2, 3] [2, 3] 4 (i32 (prod_list [2, 3])) 0 0 =
      Some (flat_index [2, 1] (operand_coords [2, 1] [2, 3] (coords [2, 3] 4)),
            flat_index [2, 3] (operand_coords [2, 3] [2, 3] (coords [2, 3] 4)))"
    using binop_loop_broadcast [OF d sh, of 4] by simp
  then have "binop_loop [2, 1] [2, 3] [2, 3] 4 (i32 (prod_list [2, 3])) 0 0 = Some (1, 4)"
    by (simp add: operand_coords_def)
  with d sh show ?thesis by simp
qed

section \<open>The padding of the shapes in binary\_op (C1)\<close>


lemma map_i32_id: "list_all in_i32 s \<Longrightarrow> map i32 s = s"
  by (induction s) (simp_all add: i32_id)

lemma set_prefix_np_ones:
  "list_all in_i32 s \<Longrightarrow> length s \<le> n \<Longrightarrow> set_prefix (np_ones n) s = s @ replicate (n - length s) 1"
  by (simp add: set_prefix_def np_ones_def map_i32_id)

lemma broadcastable_nth:
  "length sx = length sy \<Longrightarrow>
   broadcastable sx sy = (\<forall>i<length sx. sx ! i = 1 \<or> sy ! i = 1 \<or> sx ! i = sy ! i)"
  by (auto simp: broadcastable_def list_all_length)

lemma np_maximum_nth:
  "length sx = length sy \<Longrightarrow> np_maximum sx sy = map (\<lambda>i. max (sx ! i) (sy ! i)) [0..<length sx]"
  by (auto simp: np_maximum_def intro!: nth_equalityI)

text \<open>
  Claim C1 says that \<^verbatim>\<open>binary_op\<close> pads the shorter shape with leading 1s, so that the two
  shapes are right-aligned. For the shapes \<open>(3,)\<close> and \<open>(2, 3)\<close> the right-aligned shapes
  \<open>(1, 3)\<close> and \<open>(2, 3)\<close> are compatible with result \<open>(2, 3)\<close>; the source pads \<open>(3,)\<close> to
  \<open>(3, 1)\<close> and raises.
\<close>

theorem binary_op_pads_leading_counterexample:
  "binary_op_shapes [3] [2, 3] = Inl (ShapeMismatch [3] [2, 3]) \<and>
   set_prefix (np_ones 2) [3] = [3, 1] \<and> spec_pad_leading 2 [3] = [1, 3] \<and>
   broadcastable (spec_pad_leading 2 [3]) (spec_pad_leading 2 [2, 3]) \<and>
   np_maximum (spec_pad_leading 2 [3]) (spec_pad_leading 2 [2, 3]) = [2, 3]"
  by (simp add: binary_op_shapes_def set_prefix_def np_ones_def broadcastable_def
        spec_pad_leading_def np_maximum_def i32_def)

lemma binary_op_Inr_shape:
  "binary_op g code f x y = (Inr ret, g') \<Longrightarrow>
   \<exists>sx sy. binary_op_shapes (shape x) (shape y) = Inr (sx, sy, shape ret)"
  by (auto simp: binary_op_def Let_def buffer_new_def GPUBuffer_def alloc_def
      split: sum.splits prod.splits option.splits if_splits)

lemma binary_op_shapes_trailing:
  assumes "list_all in_i32 xshape" "list_all in_i32 yshape"
  shows "binary_op_shapes xshape yshape =
    (let n = max (length xshape) (length yshape);
         px = xshape @ replicate (n - length xshape) 1;
         py = yshape @ replicate (n - length yshape) 1
     in if (\<forall>i<n. px ! i = 1 \<or> py ! i = 1 \<or> px ! i = py ! i)
        then Inr (px, py, map (\<lambda>i. max (px ! i) (py ! i)) [0..<n])
        else Inl (ShapeMismatch xshape yshape))"
  using assms
  by (simp add: binary_op_shapes_def Let_def set_prefix_np_ones broadcastable_nth np_maximum_nth)

text \<open>
  Claim C1, amended. \<^verbatim>\<open>binary_op\<close> pads the shorter shape with trailing 1s to the common
  rank \<open>n = max(r_a, r_b)\<close>: the two shapes are left-aligned, and the missing trailing
  dimensions have size 1. The compatibility check is on the padded shapes \<open>px\<close>, \<open>py\<close>,
  and every dimension \<open>i\<close> of the shape of a returned buffer is \<open>max (px[i]) (py[i])\<close>.
  (The dimensions are \<^verbatim>\<open>int32\<close> values.)
\<close>

theorem binary_op_pads_trailing:
  fixes x y :: gpubuffer
  defines "n \<equiv> max (length (shape x)) (length (shape y))"
  defines "px \<equiv> shape x @ replicate (n - length (shape x)) 1"
  defines "py \<equiv> shape y @ replicate (n - length (shape y)) 1"
  assumes "list_all in_i32 (shape x)" "list_all in_i32 (shape y)"
  shows "binary_op_shapes (shape x) (shape y) =
           (if (\<forall>i<n. px ! i = 1 \<or> py ! i = 1 \<or> px ! i = py ! i)
            then Inr (px, py, map (\<lambda>i. max (px ! i) (py ! i)) [0..<n])
            else Inl (ShapeMismatch (shape x) (shape y))) \<and>
         (\<forall>ret g'. binary_op g code f x y = (Inr ret, g') \<longrightarrow>
            shape ret = map (\<lambda>i. max (px ! i) (py ! i)) [0..<n])"
proof -
  have T: "binary_op_shapes (shape x) (shape y) =
           (if (\<forall>i<n. px ! i = 1 \<or> py ! i = 1 \<or> px ! i = py ! i)
            then Inr (px, py, map (\<lambda>i. max (px ! i) (py ! i)) [0..<n])
            else Inl (ShapeMismatch (shape x) (shape y)))"
    using binary_op_shapes_trailing [OF assms(4,5)] by (simp add: Let_def n_def px_def py_def)
  have "shape ret = map (\<lambda>i. max (px ! i) (py ! i)) [0..<n]"
    if "binary_op g code f x y = (Inr ret, g')" for ret g'
  proof -
    from that obtain sx sy where "binary_op_shapes (shape x) (shape y) = Inr (sx, sy, shape ret)"
      using binary_op_Inr_shape by blast
    with T show ?thesis by (auto split: if_splits)
  qed
  with T show ?thesis by blast
qed

theorem binary_op_pads_trailing_witness:
  "list_all in_i32 [2] \<and> list_all in_i32 [2, 3] \<and>
   binary_op_shapes [2] [2, 3] = Inr ([2, 1], [2, 3], [2, 3])"
proof -
  let ?x = "\<lparr>shape = [2], cl = 0\<rparr>" and ?y = "\<lparr>shape = [2, 3], cl = 1\<rparr>"
  have a: "list_all in_i32 (shape ?x)" and b: "list_all in_i32 (shape ?y)"
    by (simp_all add: in_i32_def)
  note W = binary_op_pads_trailing [of ?x ?y, OF a b, THEN conjunct1]
  have n: "max (length (shape ?x)) (length (shape ?y)) = 2" by simp
  have px: "shape ?x @ replicate (2 - length (shape ?x)) 1 = [2, 1]"
    and py: "shape ?y @ replicate (2 - length (shape ?y)) 1 = [2, 3]"
    by (simp_all add: numeral_2_eq_2)
  have c: "\<forall>i<2. [2, 1::int] ! i = 1 \<or> [2, 3::int] ! i = 1 \<or> [2, 1::int] ! i = [2, 3] ! i"
    by (simp add: numeral_2_eq_2 All_less_Suc)
  have m: "map (\<lambda>i. max ([2, 1::int] ! i) ([2, 3] ! i)) [0..<2] = [2, 3]"
    by (simp add: numeral_2_eq_2 upt_rec)
  have "binary_op_shapes [2] [2, 3] = Inr ([2, 1], [2, 3], [2, 3])"
    using W [unfolded n px py] c m by simp
  then show ?thesis by (simp add: in_i32_def)
qed

section \<open>binary\_op on the device\<close>

lemma run_threads_cong:
  "(\<And>g out. g \<in> set gids \<Longrightarrow> t1 g out = t2 g out) \<Longrightarrow>
   run_threads t1 gids out = run_threads t2 gids out"
  by (induction gids arbitrary: out) (simp_all split: option.splits)

lemma run_threads_from:
  assumes "\<And>g out. g < n \<Longrightarrow> length out = n \<Longrightarrow> thread g out = Some (out[g := v g])"
  shows "k \<le> n \<Longrightarrow> length out = n \<Longrightarrow>
    run_threads thread [k..<n] out = Some (take k out @ map v [k..<n])"
proof (induction "n - k" arbitrary: k out)
  case 0
  then show ?case by simp
next
  case (Suc m)
  then have k: "k < n" by simp
  have step: "thread k out = Some (out[k := v k])" using assms k Suc.prems by simp
  have "run_threads thread [Suc k..<n] (out[k := v k]) =
      Some (take (Suc k) (out[k := v k]) @ map v [Suc k..<n])"
    using Suc k by (intro Suc.hyps) simp_all
  moreover have "take (Suc k) (out[k := v k]) = take k out @ [v k]"
    using k Suc.prems by (simp add: take_Suc_conv_app_nth)
  ultimately show ?case using k step by (simp add: upt_conv_Cons)
qed

lemma run_threads_writes:
  assumes "\<And>g out. g < n \<Longrightarrow> length out = n \<Longrightarrow> thread g out = Some (out[g := v g])"
    and "length out = n"
  shows "run_threads thread [0..<n] out = Some (map v [0..<n])"
  using run_threads_from [where thread = thread and v = v and n = n and k = 0 and out = out] assms by simp

lemma operand_coords_same: "length cs = length s \<Longrightarrow> operand_coords s s cs = cs"
  by (auto simp: operand_coords_def intro!: nth_equalityI)

lemma binary_op_shapes_same:
  assumes "dims_ok sh" "binary_op_shapes sh sh = Inr (sx, sy, sr)"
  shows "sx = sh" "sy = sh" "sr = sh"
proof -
  note S = binary_op_shapes_Inr [OF assms(1) assms(1) assms(2)]
  show sx: "sx = sh" and sy: "sy = sh" using S(11,12) by simp_all
  show "sr = sh" using S(9) unfolding sx sy
    by (auto simp: np_maximum_def intro!: nth_equalityI)
qed

lemma binop_indices_value:
  assumes "dims_ok xshape" "dims_ok yshape"
    and "binary_op_shapes xshape yshape = Inr (shape_x, shape_y, shape_ret)"
    and "prod_list shape_ret < 2147483648"
    and "0 \<le> gid" "gid < prod_list shape_ret"
    and "general \<or> xshape = yshape"
  shows "binop_indices general shape_x shape_y shape_ret (i32 (prod_list shape_ret)) gid =
      Some (flat_index shape_x (operand_coords shape_x shape_ret (coords shape_ret gid)),
            flat_index shape_y (operand_coords shape_y shape_ret (coords shape_ret gid)))"
proof (cases general)
  case True
  then show ?thesis using binop_loop_broadcast [OF assms(1-6)] by (simp add: binop_indices_def)
next
  case False
  with assms have eq: "xshape = yshape" by simp
  have sh: "shape_x = xshape" "shape_y = xshape" "shape_ret = xshape"
    using binary_op_shapes_same [OF assms(1)] assms(3) eq by simp_all
  have "flat_index xshape (coords xshape gid) = gid"
    using assms(1,5,6) sh by (intro flat_index_coords) (simp_all add: dims_ok_positive)
  then show ?thesis using False by (simp add: binop_indices_def sh operand_coords_same)
qed

lemma flat_index_operand_bounds:
  assumes "positive sx" "positive sr" "length sx = length sr"
    and "\<forall>i<length sr. sx ! i = sr ! i \<or> sx ! i = 1"
  shows "0 \<le> flat_index sx (operand_coords sx sr (coords sr g))"
    "flat_index sx (operand_coords sx sr (coords sr g)) < prod_list sx"
proof -
  have len: "length (coords sr g) = length sx" using assms(3) by simp
  note B = flat_index_mod_bounds [OF assms(1) len]
  note E = mod_operand_coords [OF assms(2,3,4), of g]
  show "0 \<le> flat_index sx (operand_coords sx sr (coords sr g))"
    using B unfolding E by (rule conjunct1)
  show "flat_index sx (operand_coords sx sr (coords sr g)) < prod_list sx"
    using B unfolding E by (rule conjunct2)
qed

lemma binop_thread_writes:
  assumes "dims_ok xshape" "dims_ok yshape"
    and "binary_op_shapes xshape yshape = Inr (shape_x, shape_y, shape_ret)"
    and "prod_list shape_ret < 2147483648"
    and "general \<or> xshape = yshape"
    and "int (length a_g) = prod_list xshape" "int (length b_g) = prod_list yshape"
    and "int g < prod_list shape_ret" "int (length out) = prod_list shape_ret"
  shows "binop_thread general f a_g b_g (i32 (prod_list shape_ret)) shape_x shape_y shape_ret g out =
    Some (out[g := broadcast_value f a_g b_g shape_x shape_y shape_ret g])"
proof -
  note S = binary_op_shapes_Inr [OF assms(1-3)]
  let ?ia = "flat_index shape_x (operand_coords shape_x shape_ret (coords shape_ret (int g)))"
  let ?ib = "flat_index shape_y (operand_coords shape_y shape_ret (coords shape_ret (int g)))"
  have gid: "i32 (int g) = int g" using assms(4,8) by (intro i32_nonneg) simp_all
  have g0: "0 \<le> int g" by simp
  have I: "binop_indices general shape_x shape_y shape_ret (i32 (prod_list shape_ret)) (int g) =
      Some (?ia, ?ib)"
    by (rule binop_indices_value [OF assms(1-4) g0 assms(8) assms(5)])
  have sx: "\<forall>i<length shape_ret. shape_x ! i = shape_ret ! i \<or> shape_x ! i = 1"
    and sy: "\<forall>i<length shape_ret. shape_y ! i = shape_ret ! i \<or> shape_y ! i = 1"
    using S(8) by blast+
  have lx: "length shape_x = length shape_ret" using S(1,2) by simp
  have bx: "0 \<le> ?ia" "?ia < int (length a_g)"
    using flat_index_operand_bounds [OF S(3) S(5) lx sx, of "int g"] S(6) assms(6) by simp_all
  have bY: "0 \<le> ?ib" "?ib < int (length b_g)"
    using flat_index_operand_bounds [OF S(4) S(5) S(2) sy, of "int g"] S(7) assms(7) by simp_all
  have la: "load a_g ?ia = Some (a_g ! nat ?ia)" using bx by (simp add: load_def)
  have lb: "load b_g ?ib = Some (b_g ! nat ?ib)" using bY by (simp add: load_def)
  have st: "store out (int g) v = Some (out[g := v])" for v
    using assms(8,9) by (simp add: store_def)
  show ?thesis
    unfolding binop_thread_def Let_def gid I
    by (simp add: la lb st broadcast_value_def)
qed


lemma clbuild_ok:
  assumes "compiler g (snd (snd k))"
  shows "\<exists>p g'. clbuild g k = (Inr p, g') \<and> mem g' = mem g \<and> queue g' = queue g"
  using assms by (auto simp: clbuild_def split: option.splits)

lemma floats_Some_less: "floats g h = Some xs \<Longrightarrow> h < length (mem g)"
  by (simp add: floats_def split: if_splits)

lemma floats_mem_append:
  "floats g h = Some xs \<Longrightarrow> mem g' = mem g @ ms \<Longrightarrow> floats g' h = Some xs"
  by (auto simp: floats_def nth_append split: if_splits)

lemma set_prefix_length: "length s \<le> n \<Longrightarrow> length (set_prefix (np_ones n) s) = n"
  by (simp add: set_prefix_def np_ones_def)

lemma buffer_okD:
  assumes "buffer_ok g x"
  shows "dims_ok (shape x)"
    "\<exists>xs. floats g (cl x) = Some xs \<and> int (length xs) = prod_list (shape x)"
  using assms by (auto simp: buffer_ok_def split: option.splits)

lemma binary_op_success:
  assumes S: "binary_op_shapes (shape x) (shape y) = Inr (sx, sy, sr)"
    and X: "buffer_ok g x" and Y: "buffer_ok g y"
    and C: "compiler g (binop_prg (shape x \<noteq> shape y) code)"
    and P: "prod_list sr < 2147483648"
    and A: "floats g (cl x) = Some a_g" and B: "floats g (cl y) = Some b_g"
    and N: "sr \<noteq> []"
  shows "\<exists>g'. binary_op g code f x y = (Inr \<lparr>shape = sr, cl = length (mem g)\<rparr>, g') \<and>
      floats g' (length (mem g)) =
        Some (map (broadcast_value f a_g b_g sx sy sr) [0..<nat (prod_list sr)]) \<and>
      queue g' = queue g @ [''binop'']"
proof -
  note dx = buffer_okD(1) [OF X] and dy = buffer_okD(1) [OF Y]
  from buffer_okD(2) [OF X] A have la: "int (length a_g) = prod_list (shape x)" by simp
  from buffer_okD(2) [OF Y] B have lb: "int (length b_g) = prod_list (shape y)" by simp
  note Sh = binary_op_shapes_Inr [OF dx dy S]
  have Pr: "0 < prod_list sr" using Sh(5) by (rule prod_list_positive)
  have prd: "i32 (prod_list sr) = prod_list sr" using Pr P by (intro i32_nonneg) simp_all
  define out0 where "out0 = replicate (nat (prod_list sr)) (junk g)"
  define g1 where "g1 = g\<lparr>mem := mem g @ [Floats out0]\<rparr>"
  define ret where "ret = \<lparr>shape = sr, cl = length (mem g)\<rparr>"
  have bn: "buffer_new g sr = (ret, g1)"
    by (simp add: buffer_new_def GPUBuffer_def alloc_def g1_def ret_def out0_def)
  have "compiler g1 (snd (snd (cl_ctx g1, ''binop'', binop_prg (shape x \<noteq> shape y) code)))"
    using C by (simp add: g1_def)
  from clbuild_ok [OF this] obtain p g2 where
    cb: "clbuild g1 (cl_ctx g1, ''binop'', binop_prg (shape x \<noteq> shape y) code) = (Inr p, g2)"
    and m2: "mem g2 = mem g1" and q2: "queue g2 = queue g1" by blast
  define g3 where "g3 = g2\<lparr>mem := mem g @ [Floats out0, Ints sx]\<rparr>"
  define g4 where "g4 = g2\<lparr>mem := mem g @ [Floats out0, Ints sx, Ints sy]\<rparr>"
  define g5 where "g5 = g2\<lparr>mem := mem g @ [Floats out0, Ints sx, Ints sy, Ints sr]\<rparr>"
  have nx: "sx \<noteq> []" and ny: "sy \<noteq> []" using N Sh(1,2) by auto
  have np1: "buffer_np g2 sx = (Inr (Suc (length (mem g))), g3)"
    by (simp add: buffer_np_ok [OF nx] g3_def m2 g1_def)
  have np2: "buffer_np g3 sy = (Inr (Suc (Suc (length (mem g)))), g4)"
    by (simp add: buffer_np_ok [OF ny] g3_def g4_def)
  have np3: "buffer_np g4 sr = (Inr (Suc (Suc (Suc (length (mem g))))), g5)"
    by (simp add: buffer_np_ok [OF N] g4_def g5_def)
  have m5: "mem g5 = mem g @ [Floats out0, Ints sx, Ints sy, Ints sr]" by (simp add: g5_def)
  have q5: "queue g5 = queue g" by (simp add: g5_def q2 g1_def)
  have fa: "floats g5 (cl x) = Some a_g" using A m5 by (rule floats_mem_append)
  have fb: "floats g5 (cl y) = Some b_g" using B m5 by (rule floats_mem_append)
  have fr: "floats g5 (cl ret) = Some out0"
    by (simp add: floats_def m5 ret_def nth_append)
  have lo: "length out0 = nat (prod_list sr)" by (simp add: out0_def)
  have run: "run_threads
       (binop_thread (shape x \<noteq> shape y) f a_g b_g (i32 (prod_list sr)) sx sy sr)
       [0..<nat (prod_list sr)] out0 =
     Some (map (broadcast_value f a_g b_g sx sy sr) [0..<nat (prod_list sr)])"
  proof (rule run_threads_writes [OF _ lo])
    fix t and out :: "'a list"
    assume t: "t < nat (prod_list sr)" and o: "length out = nat (prod_list sr)"
    have "int t < prod_list sr" using t by simp
    moreover have "int (length out) = prod_list sr" using o Pr by simp
    ultimately show "binop_thread (shape x \<noteq> shape y) f a_g b_g (i32 (prod_list sr)) sx sy sr t out =
        Some (out[t := broadcast_value f a_g b_g sx sy sr t])"
      using la lb by (intro binop_thread_writes [OF dx dy S P]) simp_all
  qed
  define g' where "g' = g5\<lparr>mem := (mem g5)[cl ret :=
      Floats (map (broadcast_value f a_g b_g sx sy sr) [0..<nat (prod_list sr)])],
      queue := queue g5 @ [''binop'']\<rparr>"
  have nneg: "\<not> prod_list sr < 0" using Pr by simp
  have res: "binary_op g code f x y = (Inr ret, g')"
    unfolding binary_op_def S
    apply (simp add: bn cb np1 np2 np3 fa fb fr prd nneg del: upt.simps)
    apply (simp add: Let_def run [unfolded prd] g'_def del: upt.simps)
    done
  have "floats g' (length (mem g)) =
      Some (map (broadcast_value f a_g b_g sx sy sr) [0..<nat (prod_list sr)])"
    by (simp add: g'_def floats_def m5 ret_def del: upt.simps)
  moreover have "queue g' = queue g @ [''binop'']" by (simp add: g'_def q5)
  ultimately show ?thesis using res by (auto simp: ret_def)
qed


lemma binary_op_mismatch:
  assumes "\<not> broadcastable (set_prefix (np_ones (max (length (shape x)) (length (shape y)))) (shape x))
                         (set_prefix (np_ones (max (length (shape x)) (length (shape y)))) (shape y))"
  shows "binary_op g code f x y = (Inl (ShapeMismatch (shape x) (shape y)), g)"
  using assms by (simp add: binary_op_def binary_op_shapes_def Let_def)

section \<open>The fast path of binary\_op (C10)\<close>

lemma nonneg_prod_positive:
  "list_all (\<lambda>d. 0 \<le> d \<and> d < 2147483648) s \<Longrightarrow> prod_list s \<noteq> 0 \<Longrightarrow> dims_ok s"
  by (induction s) (auto simp: dims_ok_def)

lemma nonneg_set_prefix:
  "list_all (\<lambda>d. 0 \<le> d \<and> d < 2147483648) s \<Longrightarrow> set_prefix (np_ones (length s)) s = s"
proof -
  assume "list_all (\<lambda>d. 0 \<le> d \<and> d < 2147483648) s"
  then have "map i32 s = s" by (induction s) (simp_all add: i32_nonneg)
  then show ?thesis by (simp add: set_prefix_def np_ones_def)
qed

lemma np_maximum_same: "np_maximum s s = s"
  by (auto simp: np_maximum_def intro!: nth_equalityI)

text \<open>
  Claim C10. For two operands of the same shape the source text of the kernel is
  \<^verbatim>\<open>int idx_a = gid, idx_b = gid;\<close> in place of the loop. For every flat index \<open>gid\<close> of
  the result the loop computes the same two indices, and the two kernels, dispatched on the
  same buffers, leave the same result.
\<close>

theorem binop_fast_path_refines_loop:
  assumes "list_all (\<lambda>d. 0 \<le> d \<and> d < 2147483648) sh"
    and "prod_list sh < 2147483648"
    and "binary_op_shapes sh sh = Inr (shape_x, shape_y, shape_ret)"
  shows "(\<forall>gid. 0 \<le> gid \<and> gid < prod_list shape_ret \<longrightarrow>
            binop_indices True shape_x shape_y shape_ret (i32 (prod_list shape_ret)) gid =
            binop_indices False shape_x shape_y shape_ret (i32 (prod_list shape_ret)) gid) \<and>
         run_threads (binop_thread True f a_g b_g (i32 (prod_list shape_ret)) shape_x shape_y shape_ret)
           [0..<nat (i32 (prod_list shape_ret))] res_g =
         run_threads (binop_thread False f a_g b_g (i32 (prod_list shape_ret)) shape_x shape_y shape_ret)
           [0..<nat (i32 (prod_list shape_ret))] res_g"
proof -
  have sh: "shape_x = sh" "shape_y = sh" "shape_ret = sh"
    using assms(3) nonneg_set_prefix [OF assms(1)]
    by (auto simp: binary_op_shapes_def Let_def np_maximum_same split: if_splits)
  have I: "binop_indices True sh sh sh (i32 (prod_list sh)) gid =
           binop_indices False sh sh sh (i32 (prod_list sh)) gid"
    if "0 \<le> gid" "gid < prod_list sh" for gid
  proof -
    from that have "prod_list sh \<noteq> 0" by auto
    then have d: "dims_ok sh" using assms(1) by (intro nonneg_prod_positive)
    have S: "binary_op_shapes sh sh = Inr (sh, sh, sh)" using assms(3) sh by simp
    have "binop_indices True sh sh sh (i32 (prod_list sh)) gid =
        Some (flat_index sh (operand_coords sh sh (coords sh gid)),
              flat_index sh (operand_coords sh sh (coords sh gid)))"
      using that by (intro binop_indices_value [OF d d S assms(2)]) simp_all
    moreover have "flat_index sh (coords sh gid) = gid"
      using that d by (intro flat_index_coords) (simp_all add: dims_ok_positive)
    ultimately show ?thesis by (simp add: operand_coords_same binop_indices_def)
  qed
  have prd: "i32 (prod_list sh) = prod_list sh" if "0 < prod_list sh"
    using that assms(2) by (intro i32_nonneg) simp_all
  have "run_threads (binop_thread True f a_g b_g (i32 (prod_list sh)) sh sh sh)
           [0..<nat (i32 (prod_list sh))] res_g =
        run_threads (binop_thread False f a_g b_g (i32 (prod_list sh)) sh sh sh)
           [0..<nat (i32 (prod_list sh))] res_g"
  proof (rule run_threads_cong)
    fix t and out :: "'a list"
    assume "t \<in> set [0..<nat (i32 (prod_list sh))]"
    then have t: "int t < i32 (prod_list sh)" by simp
    have pos: "0 < prod_list sh"
    proof (rule ccontr)
      assume "\<not> 0 < prod_list sh"
      moreover have "0 \<le> prod_list sh"
        using assms(1) by (induction sh) simp_all
      ultimately have "prod_list sh = 0" by simp
      then have "i32 (prod_list sh) = 0" by (simp add: i32_def)
      with t show False by simp
    qed
    have t': "int t < prod_list sh" using t prd [OF pos] by simp
    have gid: "i32 (int t) = int t" using t' assms(2) by (intro i32_nonneg) simp_all
    show "binop_thread True f a_g b_g (i32 (prod_list sh)) sh sh sh t out =
          binop_thread False f a_g b_g (i32 (prod_list sh)) sh sh sh t out"
      unfolding binop_thread_def Let_def gid using I [of "int t"] t' by simp
  qed
  with I show ?thesis unfolding sh by blast
qed

theorem binop_fast_path_refines_loop_witness:
  "list_all (\<lambda>d. 0 \<le> d \<and> d < 2147483648) [2, 3::int] \<and> prod_list [2, 3::int] < 2147483648 \<and>
   binary_op_shapes [2, 3] [2, 3] = Inr ([2, 3], [2, 3], [2, 3]) \<and>
   binop_indices True [2, 3] [2, 3] [2, 3] (i32 (prod_list [2, 3])) 4 = Some (4, 4) \<and>
   run_threads (binop_thread True (+) [1, 2, 3, 4, 5, 6::int] [10, 20, 30, 40, 50, 60]
        (i32 (prod_list [2, 3])) [2, 3] [2, 3] [2, 3]) [0..<nat (i32 (prod_list [2, 3]))] [0, 0, 0, 0, 0, 0] =
   run_threads (binop_thread False (+) [1, 2, 3, 4, 5, 6::int] [10, 20, 30, 40, 50, 60]
        (i32 (prod_list [2, 3])) [2, 3] [2, 3] [2, 3]) [0..<nat (i32 (prod_list [2, 3]))] [0, 0, 0, 0, 0, 0]"
proof -
  have a: "list_all (\<lambda>d. 0 \<le> d \<and> d < 2147483648) [2, 3::int]" by simp
  have b: "prod_list [2, 3::int] < 2147483648" by simp
  have c: "binary_op_shapes [2, 3] [2, 3] = Inr ([2, 3], [2, 3], [2, 3])"
    by (simp add: binary_op_shapes_def set_prefix_def np_ones_def broadcastable_def
        np_maximum_def i32_def Let_def)
  note T = binop_fast_path_refines_loop [OF a b c]
  have "binop_indices True [2, 3] [2, 3] [2, 3] (i32 (prod_list [2, 3])) 4 =
        binop_indices False [2, 3] [2, 3] [2, 3] (i32 (prod_list [2, 3])) 4"
    using T [THEN conjunct1, rule_format, of 4] by simp
  then have d: "binop_indices True [2, 3] [2, 3] [2, 3] (i32 (prod_list [2, 3])) 4 = Some (4, 4)"
    by (simp add: binop_indices_def)
  from a b c d T [THEN conjunct2] show ?thesis by blast
qed

section \<open>The reduction kernel\<close>

lemma set_ones_length: "set_ones osize axis = Inr r \<Longrightarrow> length r = length osize"
  by (induction axis arbitrary: osize) (auto split: sum.splits)

lemma set_ones_error:
  "\<exists>a\<in>set axis. a < - int (length osize) \<or> int (length osize) \<le> a \<Longrightarrow>
   set_ones osize axis = Inl IndexError"
proof (induction axis arbitrary: osize)
  case Nil
  then show ?case by simp
next
  case (Cons a axis)
  show ?case
  proof (cases "np_index (length osize) a")
    case (Inl e)
    then show ?thesis by (auto simp: np_index_def split: if_splits)
  next
    case (Inr i)
    then have "\<not> (a < - int (length osize) \<or> int (length osize) \<le> a)"
      by (auto simp: np_index_def split: if_splits)
    with Cons.prems have "\<exists>a\<in>set axis. a < - int (length (osize[i := 1])) \<or>
        int (length (osize[i := 1])) \<le> a" by auto
    from Cons.IH [OF this] show ?thesis using Inr by simp
  qed
qed

lemma set_ones_ok:
  "\<forall>a\<in>set axis. - int (length osize) \<le> a \<and> a < int (length osize) \<Longrightarrow>
   set_ones osize axis =
     Inr (map (\<lambda>i. if \<exists>a\<in>set axis. int i = a mod int (length osize) then 1 else osize ! i)
            [0..<length osize])"
proof (induction axis arbitrary: osize)
  case Nil
  then show ?case by (simp add: map_nth)
next
  case (Cons a axis)
  let ?n = "int (length osize)"
  from Cons.prems have a: "- ?n \<le> a" "a < ?n" by simp_all
  define i where "i = nat (if a < 0 then a + ?n else a)"
  have ni: "np_index (length osize) a = Inr i" using a by (simp add: np_index_def i_def)
  have im: "int i = a mod ?n"
  proof (cases "a < 0")
    case True
    then have "a mod ?n = a + ?n" using a
      by (smt (verit) mod_add_self2 mod_pos_pos_trivial)
    then show ?thesis using True a by (simp add: i_def)
  next
    case False
    then show ?thesis using a by (simp add: i_def)
  qed
  have il: "i < length osize" using a by (auto simp: i_def)
  have "set_ones (osize[i := 1]) axis =
     Inr (map (\<lambda>j. if \<exists>a\<in>set axis. int j = a mod int (length (osize[i := 1])) then 1
                    else osize[i := 1] ! j)
            [0..<length (osize[i := 1])])"
    using Cons.prems by (intro Cons.IH) simp
  then show ?case
    using ni im il by (auto simp: nth_list_update)
qed

lemma reduce_op_invalid_axis:
  assumes "\<exists>a\<in>set ax. a < - int (length (shape inp)) \<or> int (length (shape inp)) \<le> a"
  shows "reduce_op g code step code2 fin inp (Some ax) = (Inl IndexError, g)"
  using set_ones_error [OF assms] by (simp add: reduce_op_def)

lemma summed_shape_simps [simp]:
  "summed_shape [] sr = []"
  "summed_shape (dx # sx) (dr # sr) = (if dx = dr then 1 else dx) # summed_shape sx sr"
  by (simp_all add: summed_shape_def)

lemma reduces_to_simps [simp]:
  "reduces_to [] []"
  "reduces_to (dx # sx) (dr # sr) = ((dr = dx \<or> dr = 1) \<and> reduces_to sx sr)"
  by (simp_all add: reduces_to_def)

lemma reduces_to_length: "reduces_to sx sr \<Longrightarrow> length sx = length sr"
  by (simp add: reduces_to_def list_all2_lengthD)

lemma reduces_to_positive: "reduces_to sx sr \<Longrightarrow> positive sx \<Longrightarrow> positive sr"
  unfolding reduces_to_def by (induction rule: list_all2_induct) auto

lemma summed_shape_positive: "reduces_to sx sr \<Longrightarrow> positive sx \<Longrightarrow> positive (summed_shape sx sr)"
  unfolding reduces_to_def by (induction rule: list_all2_induct) auto

lemma summed_shape_length: "reduces_to sx sr \<Longrightarrow> length (summed_shape sx sr) = length sx"
  by (simp add: summed_shape_def reduces_to_length)

lemma prod_list_split:
  "reduces_to sx sr \<Longrightarrow> prod_list sx = prod_list sr * prod_list (summed_shape sx sr)"
  unfolding reduces_to_def by (induction rule: list_all2_induct) auto

lemma reduce_index_step:
  assumes "0 < dx" "0 < X" "0 \<le> idx" "(idx + 1) * (dx * X) \<le> 2147483648" "0 \<le> c" "c < dx"
  shows "c_add (c_mul idx dx) c = idx * dx + c"
    "0 \<le> idx * dx + c" "(idx * dx + c + 1) * X \<le> 2147483648"
proof -
  have i0: "0 \<le> idx * dx + c" using assms by simp
  have "idx * dx + c + 1 \<le> (idx + 1) * dx" using assms(6) by (simp add: algebra_simps)
  then have "(idx * dx + c + 1) * X \<le> ((idx + 1) * dx) * X"
    using assms(2) by (intro mult_right_mono) simp_all
  then show ib: "(idx * dx + c + 1) * X \<le> 2147483648" using assms(4) by (simp add: mult.assoc)
  have "idx * dx + c + 1 \<le> (idx * dx + c + 1) * X"
    using i0 assms(2) by (simp add: mult_le_cancel_left1)
  then have "idx * dx + c < 2147483648" using ib by linarith
  then show "c_add (c_mul idx dx) c = idx * dx + c"
    using assms by (intro c_mul_add_nonneg) simp_all
  show "0 \<le> idx * dx + c" by (rule i0)
qed

lemma c_div_exact:
  assumes "0 < d" "0 < P" "d * P < 2147483648"
  shows "c_div (d * P) d = Some P"
  using c_div_nonneg [of "d * P" d] assms by simp

lemma c_digit:
  assumes "0 \<le> g" "g < 2147483648" "0 < P" "0 < d"
  shows "c_div g P = Some (g div P)" "c_mod (g div P) d = Some (g div P mod d)"
proof -
  show "c_div g P = Some (g div P)" using assms by (intro c_div_nonneg)
  have "0 \<le> g div P" using assms by (simp add: pos_imp_zdiv_nonneg_iff)
  moreover have "g div P \<le> g" using assms by (simp add: int_div_le)
  ultimately show "c_mod (g div P) d = Some (g div P mod d)"
    using assms by (intro c_mod_nonneg) simp_all
qed

lemma less_of_mult_le:
  assumes "0 < d" "0 < P" "d * P < (b::int)"
  shows "P < b"
proof -
  have "P \<le> d * P" using mult_right_mono [of 1 d P] assms by simp
  then show ?thesis using assms(3) by linarith
qed

lemma reduce_index_flat:
  assumes "reduces_to sx sr" "positive sx"
    and "prod_list sr < 2147483648" "prod_list (summed_shape sx sr) < 2147483648"
    and "0 \<le> gid" "gid < 2147483648" "0 \<le> x" "x < 2147483648"
    and "0 \<le> idx" "(idx + 1) * prod_list sx \<le> 2147483648"
  shows "reduce_index sx sr gid x (prod_list sr) (prod_list (summed_shape sx sr)) idx =
    Some (idx * prod_list sx +
          flat_index sx (map (\<lambda>(c, r). c + r)
            (zip (coords sr gid) (coords (summed_shape sx sr) x))))"
  using assms unfolding reduces_to_def
proof (induction sx sr arbitrary: idx rule: list_all2_induct)
  case Nil
  then show ?case by simp
next
  case (Cons dx sx dr sr)
  let ?rs = "summed_shape sx sr"
  let ?P = "prod_list sr" and ?R = "prod_list ?rs" and ?X = "prod_list sx"
  from Cons.hyps have red: "reduces_to sx sr" by (simp add: reduces_to_def)
  from Cons.prems(1) have dx: "0 < dx" and psx: "positive sx" by simp_all
  have P: "0 < ?P" by (rule prod_list_positive [OF reduces_to_positive [OF red psx]])
  have R: "0 < ?R" by (rule prod_list_positive [OF summed_shape_positive [OF red psx]])
  have X: "0 < ?X" by (rule prod_list_positive [OF psx])
  from Cons.prems(9) have ib0: "(idx + 1) * (dx * ?X) \<le> 2147483648" by simp
  show ?case
  proof (cases "dx = dr")
    case True
    define c where "c = gid div ?P mod dx"
    have cb: "0 \<le> c" "c < dx" using dx by (simp_all add: c_def)
    note st = reduce_index_step [OF dx X Cons.prems(8) ib0 cb]
    from Cons.prems(2) True have tot: "dx * ?P < 2147483648" by simp
    have Pb: "?P < 2147483648" using dx P tot by (rule less_of_mult_le)
    from Cons.prems(3) True have Rb: "?R < 2147483648" by simp
    have s1: "c_div (dx * ?P) dx = Some ?P" using dx P tot by (rule c_div_exact)
    note dg = c_digit [OF Cons.prems(4,5) P dx]
    have IH: "reduce_index sx sr gid x ?P ?R (idx * dx + c) =
      Some ((idx * dx + c) * ?X +
            flat_index sx (map (\<lambda>(c, r). c + r) (zip (coords sr gid) (coords ?rs x))))"
      using psx Pb Rb Cons.prems(4-7) st(2,3) by (intro Cons.IH)
    have "reduce_index (dx # sx) (dr # sr) gid x (prod_list (dr # sr))
        (prod_list (summed_shape (dx # sx) (dr # sr))) idx =
        reduce_index sx sr gid x ?P ?R (idx * dx + c)"
      using True s1 dg st(1) by (simp add: c_def)
    also have "\<dots> = Some (idx * prod_list (dx # sx) +
          flat_index (dx # sx) (map (\<lambda>(c, r). c + r)
            (zip (coords (dr # sr) gid) (coords (summed_shape (dx # sx) (dr # sr)) x))))"
      unfolding IH using True by (simp add: c_def algebra_simps)
    finally show ?thesis .
  next
    case False
    with Cons.hyps have d1: "dr = 1" by simp
    define c where "c = x div ?R mod dx"
    have cb: "0 \<le> c" "c < dx" using dx by (simp_all add: c_def)
    note st = reduce_index_step [OF dx X Cons.prems(8) ib0 cb]
    from Cons.prems(3) False have tot: "dx * ?R < 2147483648" by simp
    have Rb: "?R < 2147483648" using dx R tot by (rule less_of_mult_le)
    from Cons.prems(2) d1 have Pb: "?P < 2147483648" by simp
    have s1: "c_div (dx * ?R) dx = Some ?R" using dx R tot by (rule c_div_exact)
    note dg = c_digit [OF Cons.prems(6,7) R dx]
    have IH: "reduce_index sx sr gid x ?P ?R (idx * dx + c) =
      Some ((idx * dx + c) * ?X +
            flat_index sx (map (\<lambda>(c, r). c + r) (zip (coords sr gid) (coords ?rs x))))"
      using psx Pb Rb Cons.prems(4-7) st(2,3) by (intro Cons.IH)
    have "reduce_index (dx # sx) (dr # sr) gid x (prod_list (dr # sr))
        (prod_list (summed_shape (dx # sx) (dr # sr))) idx =
        reduce_index sx sr gid x ?P ?R (idx * dx + c)"
      using False d1 s1 dg st(1) by (simp add: c_def)
    also have "\<dots> = Some (idx * prod_list (dx # sx) +
          flat_index (dx # sx) (map (\<lambda>(c, r). c + r)
            (zip (coords (dr # sr) gid) (coords (summed_shape (dx # sx) (dr # sr)) x))))"
      unfolding IH using False d1 by (simp add: c_def algebra_simps)
    finally show ?thesis .
  qed
qed

lemma flat_index_bounds:
  assumes "positive s" "length cs = length s" "\<forall>i<length s. 0 \<le> cs ! i \<and> cs ! i < s ! i"
  shows "0 \<le> flat_index s cs" "flat_index s cs < prod_list s"
proof -
  have "map (\<lambda>(c, d). c mod d) (zip cs s) = cs"
    using assms(2,3) by (auto intro!: nth_equalityI)
  with flat_index_mod_bounds [OF assms(1,2)]
  show "0 \<le> flat_index s cs" "flat_index s cs < prod_list s" by simp_all
qed

lemma summed_shape_nth:
  "length sx = length sr \<Longrightarrow> i < length sx \<Longrightarrow>
   summed_shape sx sr ! i = (if sx ! i = sr ! i then 1 else sx ! i)"
  by (simp add: summed_shape_def)

lemma reduces_to_nth:
  "reduces_to sx sr \<Longrightarrow> i < length sx \<Longrightarrow> sr ! i = sx ! i \<or> sr ! i = 1"
  by (simp add: reduces_to_def list_all2_conv_all_nth)

lemma merged_coords_bounds:
  assumes "reduces_to sx sr" "positive sx" "i < length sx"
  shows "0 \<le> coords sr g ! i + coords (summed_shape sx sr) x ! i"
    "coords sr g ! i + coords (summed_shape sx sr) x ! i < sx ! i"
proof -
  note len = reduces_to_length [OF assms(1)]
  have i1: "i < length sr" and i2: "i < length (summed_shape sx sr)"
    using assms(3) len by (simp_all add: summed_shape_def)
  note b1 = coords_bounds [OF reduces_to_positive [OF assms(1,2)] i1, of g]
  note b2 = coords_bounds [OF summed_shape_positive [OF assms(1,2)] i2, of x]
  note n = summed_shape_nth [OF len assms(3)]
  note r = reduces_to_nth [OF assms(1,3)]
  show "0 \<le> coords sr g ! i + coords (summed_shape sx sr) x ! i" using b1 b2 by simp
  show "coords sr g ! i + coords (summed_shape sx sr) x ! i < sx ! i"
  proof (cases "sx ! i = sr ! i")
    case True
    then have "coords (summed_shape sx sr) x ! i = 0" using b2 n by simp
    then show ?thesis using b1 True by simp
  next
    case False
    then have "sr ! i = 1" using r by auto
    then have "coords sr g ! i = 0" using b1 by simp
    then show ?thesis using b2 n False by simp
  qed
qed

lemma merged_index_bounds:
  assumes "reduces_to sx sr" "positive sx"
  shows "0 \<le> flat_index sx (map (\<lambda>(c, r). c + r) (zip (coords sr g) (coords (summed_shape sx sr) x)))"
    "flat_index sx (map (\<lambda>(c, r). c + r) (zip (coords sr g) (coords (summed_shape sx sr) x)))
       < prod_list sx"
proof -
  note len = reduces_to_length [OF assms(1)]
  let ?cs = "map (\<lambda>(c, r). c + r) (zip (coords sr g) (coords (summed_shape sx sr) x))"
  have l: "length ?cs = length sx" using len by (simp add: summed_shape_def)
  have b: "\<forall>i<length sx. 0 \<le> ?cs ! i \<and> ?cs ! i < sx ! i"
  proof (intro allI impI)
    fix i assume i: "i < length sx"
    then have "?cs ! i = coords sr g ! i + coords (summed_shape sx sr) x ! i"
      using len by (simp add: summed_shape_def)
    then show "0 \<le> ?cs ! i \<and> ?cs ! i < sx ! i"
      using merged_coords_bounds [OF assms i, of g x] by simp
  qed
  show "0 \<le> flat_index sx ?cs" "flat_index sx ?cs < prod_list sx"
    using flat_index_bounds [OF assms(2) l b] by simp_all
qed

lemma reduce_sum_foldl:
  assumes "\<And>x. x \<in> set xs \<Longrightarrow>
      reduce_index sx sr gid x prd sz 0 = Some (ix x) \<and> 0 \<le> ix x \<and> ix x < int (length a_g)"
  shows "reduce_sum step a_g sx sr gid prd sz xs out =
      Some (foldl step out (map (\<lambda>x. a_g ! nat (ix x)) xs))"
  using assms
proof (induction xs arbitrary: out)
  case Nil
  then show ?case by simp
next
  case (Cons x xs)
  from Cons.prems [of x] have x: "reduce_index sx sr gid x prd sz 0 = Some (ix x)"
    and b: "0 \<le> ix x" "ix x < int (length a_g)" by simp_all
  have l: "load a_g (ix x) = Some (a_g ! nat (ix x))" using b by (simp add: load_def)
  have "reduce_sum step a_g sx sr gid prd sz xs (step out (a_g ! nat (ix x))) =
      Some (foldl step (step out (a_g ! nat (ix x))) (map (\<lambda>x. a_g ! nat (ix x)) xs))"
    using Cons.prems by (intro Cons.IH) simp
  then show ?case by (simp add: x l)
qed

lemma reduce_thread_writes:
  fixes a_g :: "('a::zero) list"
  assumes "reduces_to sx sr" "positive sx" "prod_list sx < 2147483648"
    and "int (length a_g) = prod_list sx"
    and "int g < prod_list sr" "int (length out) = prod_list sr"
  shows "reduce_thread step fin a_g (prod_list (summed_shape sx sr)) (prod_list sr) sx sr g out =
    Some (out[g := reduction_value step fin a_g sx sr g])"
proof -
  let ?rs = "summed_shape sx sr"
  let ?ix = "\<lambda>x. flat_index sx (map (\<lambda>(c, r). c + r) (zip (coords sr (int g)) (coords ?rs x)))"
  have P: "0 < prod_list sr" by (rule prod_list_positive [OF reduces_to_positive [OF assms(1,2)]])
  have R: "0 < prod_list ?rs" by (rule prod_list_positive [OF summed_shape_positive [OF assms(1,2)]])
  have X: "0 < prod_list sx" by (rule prod_list_positive [OF assms(2)])
  note sp = prod_list_split [OF assms(1)]
  have Pb: "prod_list sr < 2147483648"
    using less_of_mult_le [of "prod_list ?rs" "prod_list sr" 2147483648] R P assms(3) sp
    by (simp add: mult.commute)
  have Rb: "prod_list ?rs < 2147483648"
    using less_of_mult_le [of "prod_list sr" "prod_list ?rs" 2147483648] R P assms(3) sp by simp
  have gb: "int g < 2147483648" using assms(5) Pb by simp
  have gid: "i32 (int g) = int g" using gb by (intro i32_nonneg) simp_all
  have ix: "reduce_index sx sr (int g) x (prod_list sr) (prod_list ?rs) 0 = Some (?ix x) \<and>
      0 \<le> ?ix x \<and> ?ix x < int (length a_g)"
    if "x \<in> set (map int [0..<nat (prod_list ?rs)])" for x
  proof -
    from that have xb: "0 \<le> x" "x < prod_list ?rs" by auto
    then have x2: "x < 2147483648" using Rb by simp
    have "reduce_index sx sr (int g) x (prod_list sr) (prod_list ?rs) 0 =
        Some (0 * prod_list sx + ?ix x)"
      using assms(1,2) Pb Rb gb xb(1) x2 assms(3)
      by (intro reduce_index_flat) simp_all
    then show ?thesis
      using merged_index_bounds [OF assms(1,2), of "int g" x] assms(4) by simp
  qed
  have rs: "reduce_sum step a_g sx sr (int g) (prod_list sr) (prod_list ?rs)
        (map int [0..<nat (prod_list ?rs)]) 0 =
      Some (foldl step 0 (map (\<lambda>x. a_g ! nat (?ix x)) (map int [0..<nat (prod_list ?rs)])))"
    by (rule reduce_sum_foldl [where ix = ?ix, OF ix])
  have st: "store out (int g) v = Some (out[g := v])" for v
    using assms(5,6) by (simp add: store_def)
  show ?thesis
    unfolding reduce_thread_def Let_def gid rs
    by (simp add: st reduction_value_def comp_def)
qed

lemma reduces_to_dims_ok: "reduces_to sx sr \<Longrightarrow> dims_ok sx \<Longrightarrow> dims_ok sr"
  unfolding reduces_to_def dims_ok_def by (induction rule: list_all2_induct) auto

lemma reduce_op_success:
  fixes g :: "('a::zero) gpu"
  assumes X: "buffer_ok g inp" and A: "floats g (cl inp) = Some a_g"
    and O: "(case axis of None \<Rightarrow> Inr (replicate (length (shape inp)) 1)
             | Some ax \<Rightarrow> set_ones (shape inp) ax) = Inr osize"
    and R: "reduces_to (shape inp) osize"
    and C: "compiler g (reduce_prg code code2)"
    and P: "prod_list (shape inp) < 2147483648"
    and N: "shape inp \<noteq> []"
  shows "\<exists>g'. reduce_op g code step code2 fin inp axis =
        (Inr \<lparr>shape = (case axis of None \<Rightarrow> [1] | Some ax \<Rightarrow> osize), cl = length (mem g)\<rparr>, g') \<and>
      floats g' (length (mem g)) =
        Some (map (reduction_value step fin a_g (shape inp) osize) [0..<nat (prod_list osize)]) \<and>
      queue g' = queue g @ [''reduce''] \<and>
      length (mem g) < length (mem g') \<and>
      (\<forall>h<length (mem g). mem g' ! h = mem g ! h)"
proof -
  let ?sx = "shape inp"
  let ?rs = "summed_shape ?sx osize"
  note dx = buffer_okD(1) [OF X]
  from buffer_okD(2) [OF X] A have la: "int (length a_g) = prod_list ?sx" by simp
  note px = dims_ok_positive [OF dx]
  note dr = reduces_to_dims_ok [OF R dx]
  have Pr: "0 < prod_list osize" by (rule prod_list_positive [OF reduces_to_positive [OF R px]])
  have Rr: "0 < prod_list ?rs" by (rule prod_list_positive [OF summed_shape_positive [OF R px]])
  note sp = prod_list_split [OF R]
  have Pb: "prod_list osize < 2147483648"
    using less_of_mult_le [of "prod_list ?rs" "prod_list osize" 2147483648] Rr Pr P sp
    by (simp add: mult.commute)
  have Rb: "prod_list ?rs < 2147483648"
    using less_of_mult_le [of "prod_list osize" "prod_list ?rs" 2147483648] Rr Pr P sp by simp
  have prd: "i32 (prod_list osize) = prod_list osize" using Pr Pb by (intro i32_nonneg) simp_all
  have Px: "0 < prod_list ?sx" by (rule prod_list_positive [OF px])
  have npx: "np_prod ?sx = prod_list ?sx" using Px P by (intro np_prod_small) simp_all
  have npo: "np_prod osize = prod_list osize" using Pr Pb by (intro np_prod_small) simp_all
  have "i64 (prod_list ?rs) = prod_list ?rs" using Rr Rb by (intro i64_id) (simp add: in_i64_def)
  then have "np_floordiv (np_prod ?sx) (np_prod osize) = prod_list ?rs"
    using Pr by (simp add: np_floordiv_def sp npx npo)
  then have sz: "i32 (np_floordiv (np_prod ?sx) (np_prod osize)) = prod_list ?rs"
    using Rr Rb by (simp add: i32_nonneg)
  note mx = dims_ok_i32 [OF dx] and mr = dims_ok_i32 [OF dr]
  define out0 where "out0 = replicate (nat (prod_list osize)) (junk g)"
  define g1 where "g1 = g\<lparr>mem := mem g @ [Floats out0]\<rparr>"
  define ret0 where "ret0 = \<lparr>shape = osize, cl = length (mem g)\<rparr>"
  define ret where "ret = \<lparr>shape = (case axis of None \<Rightarrow> [1] | Some ax \<Rightarrow> osize), cl = length (mem g)\<rparr>"
  have bn: "buffer_new g osize = (ret0, g1)"
    by (simp add: buffer_new_def GPUBuffer_def alloc_def g1_def ret0_def out0_def)
  have rr: "(case axis of None \<Rightarrow> ret0\<lparr>shape := [1]\<rparr> | Some ax \<Rightarrow> ret0) = ret"
    by (simp add: ret_def ret0_def split: option.splits)
  have "compiler g1 (snd (snd (cl_ctx g1, ''reduce'', reduce_prg code code2)))"
    using C by (simp add: g1_def)
  from clbuild_ok [OF this] obtain p g2 where
    cb: "clbuild g1 (cl_ctx g1, ''reduce'', reduce_prg code code2) = (Inr p, g2)"
    and m2: "mem g2 = mem g1" and q2: "queue g2 = queue g1" by blast
  define g3 where "g3 = g2\<lparr>mem := mem g @ [Floats out0, Ints ?sx]\<rparr>"
  define g4 where "g4 = g2\<lparr>mem := mem g @ [Floats out0, Ints ?sx, Ints osize]\<rparr>"
  have no: "osize \<noteq> []" using N reduces_to_length [OF R] by auto
  have np1: "buffer_np g2 ?sx = (Inr (Suc (length (mem g))), g3)"
    by (simp add: buffer_np_ok [OF N] g3_def m2 g1_def)
  have np2: "buffer_np g3 osize = (Inr (Suc (Suc (length (mem g)))), g4)"
    by (simp add: buffer_np_ok [OF no] g3_def g4_def)
  have m4: "mem g4 = mem g @ [Floats out0, Ints ?sx, Ints osize]" by (simp add: g4_def)
  have q4: "queue g4 = queue g" by (simp add: g4_def q2 g1_def)
  have fa: "floats g4 (cl inp) = Some a_g" using A m4 by (rule floats_mem_append)
  have fr: "floats g4 (cl ret) = Some out0" by (simp add: floats_def m4 ret_def nth_append)
  have lo: "length out0 = nat (prod_list osize)" by (simp add: out0_def)
  have run: "run_threads
       (reduce_thread step fin a_g (prod_list ?rs) (prod_list osize) ?sx osize)
       [0..<nat (prod_list osize)] out0 =
     Some (map (reduction_value step fin a_g ?sx osize) [0..<nat (prod_list osize)])"
  proof (rule run_threads_writes [OF _ lo])
    fix t and out :: "'a list"
    assume t: "t < nat (prod_list osize)" and o: "length out = nat (prod_list osize)"
    have "int t < prod_list osize" using t by simp
    moreover have "int (length out) = prod_list osize" using o Pr by simp
    ultimately show "reduce_thread step fin a_g (prod_list ?rs) (prod_list osize) ?sx osize t out =
        Some (out[t := reduction_value step fin a_g ?sx osize t])"
      using la by (intro reduce_thread_writes [OF R px P]) simp_all
  qed
  define g' where "g' = g4\<lparr>mem := (mem g4)[cl ret :=
      Floats (map (reduction_value step fin a_g ?sx osize) [0..<nat (prod_list osize)])],
      queue := queue g4 @ [''reduce'']\<rparr>"
  have nneg: "\<not> prod_list osize < 0" using Pr by simp
  have res: "reduce_op g code step code2 fin inp axis = (Inr ret, g')"
    unfolding reduce_op_def O
    apply (simp add: bn rr cb sz [unfolded npo] prd npo mx mr np1 np2 fa fr nneg del: upt.simps)
    apply (simp add: Let_def run g'_def del: upt.simps)
    done
  have f': "floats g' (length (mem g)) =
      Some (map (reduction_value step fin a_g ?sx osize) [0..<nat (prod_list osize)])"
    by (simp add: g'_def floats_def m4 ret_def del: upt.simps)
  have q': "queue g' = queue g @ [''reduce'']" by (simp add: g'_def q4)
  have l': "length (mem g) < length (mem g')" by (simp add: g'_def m4)
  have o': "\<forall>h<length (mem g). mem g' ! h = mem g ! h"
    by (simp add: g'_def m4 ret_def nth_append)
  show ?thesis using res f' q' l' o' unfolding ret_def by blast
qed

lemma sum_axis_filter:
  "\<forall>j\<in>set js. j < length out_shape \<Longrightarrow>
   sum_axis in_sh out_shape js =
     Inr (map int (filter (\<lambda>i. in_sh ! i = 1 \<and> 1 < out_shape ! i) js))"
  by (induction js) simp_all

lemma set_ones_axes:
  assumes "ax = map int (filter A [0..<length s])"
  shows "set_ones s ax = Inr (map (\<lambda>i. if A i then 1 else s ! i) [0..<length s])"
proof -
  have r: "\<forall>a\<in>set ax. - int (length s) \<le> a \<and> a < int (length s)"
    using assms by auto
  have "(\<exists>a\<in>set ax. int i = a mod int (length s)) = A i" if "i < length s" for i
  proof
    assume "\<exists>a\<in>set ax. int i = a mod int (length s)"
    then obtain j where j: "j < length s" "A j" "int i = int j mod int (length s)"
      using assms by auto
    then have "int i = int j" by simp
    then show "A i" using j by simp
  next
    assume "A i"
    then have "int i \<in> set ax" using that assms by simp
    moreover have "int i = int i mod int (length s)" using that by simp
    ultimately show "\<exists>a\<in>set ax. int i = a mod int (length s)" by blast
  qed
  then show ?thesis unfolding set_ones_ok [OF r] by simp
qed

lemma kept_reduces_to:
  "reduces_to s (map (\<lambda>i. if A i then 1 else s ! i) [0..<length s])"
  by (simp add: reduces_to_def list_all2_conv_all_nth)

lemma summed_shape_axes:
  assumes "\<forall>i<length s. A i \<longrightarrow> s ! i \<noteq> 1"
  shows "summed_shape s (map (\<lambda>i. if A i then 1 else s ! i) [0..<length s]) =
     map (\<lambda>i. if A i then s ! i else 1) [0..<length s]"
  using assms by (auto simp: summed_shape_def intro!: nth_equalityI)

lemma reduction_value_axis_sum:
  assumes "\<forall>i<length s. A i \<longrightarrow> s ! i \<noteq> 1"
  shows "map (reduction_value (+) (\<lambda>out. out) data s (map (\<lambda>i. if A i then 1 else s ! i) [0..<length s]))
       [0..<nat (prod_list (map (\<lambda>i. if A i then 1 else s ! i) [0..<length s]))] =
     axis_sum A s data"
  unfolding axis_sum_def Let_def reduction_value_def summed_shape_axes [OF assms] by simp

section \<open>The shape check of binary\_op (C3)\<close>

lemma binary_op_rank_0:
  assumes "shape x = []" "shape y = []" "compiler g (binop_prg False code)"
  shows "fst (binary_op g code f x y) = Inl CLError"
proof -
  have S: "binary_op_shapes (shape x) (shape y) = Inr ([], [], [])"
    by (simp add: assms binary_op_shapes_def Let_def set_prefix_def np_ones_def broadcastable_def
        np_maximum_def)
  obtain ret g1 where bn: "buffer_new g [] = (ret, g1)" by (cases "buffer_new g []")
  then have c1: "compiler g1 = compiler g" and x1: "cl_ctx g1 = cl_ctx g"
    by (auto simp: buffer_new_def GPUBuffer_def alloc_def)
  have "compiler g1 (snd (snd (cl_ctx g1, ''binop'', binop_prg False code)))"
    using assms(3) c1 by simp
  from clbuild_ok [OF this] obtain p g2 where
    cb: "clbuild g1 (cl_ctx g1, ''binop'', binop_prg False code) = (Inr p, g2)" by blast
  have np: "buffer_np g2 [] = (Inl CLError, g2)" by (simp add: buffer_np_def)
  show ?thesis
    unfolding binary_op_def S by (simp add: bn assms(1,2) cb np)
qed

text \<open>
  Claim C3 is about the shapes "after rank alignment", which in the spec is the padding
  with leading 1s. The shapes \<open>(2,)\<close> and \<open>(2, 3)\<close> are then \<open>(1, 2)\<close> and \<open>(2, 3)\<close>, with
  the unequal sizes 2 and 3 in the last dimension, yet \<^verbatim>\<open>binary_op\<close> succeeds, with the
  shape \<open>(2, 3)\<close>; the shapes \<open>(3,)\<close> and \<open>(2, 3)\<close> are compatible, yet \<^verbatim>\<open>binary_op\<close>
  raises. Two operands of rank 0 are compatible under every alignment, and \<^verbatim>\<open>binary_op\<close>
  fails in \<^verbatim>\<open>buffer_np\<close>, which cannot create a buffer for the empty shape arrays.
\<close>

theorem binary_op_shape_check_counterexample:
  "spec_pad_leading 2 [2] = [1, 2] \<and> spec_pad_leading 2 [2, 3] = [2, 3] \<and>
   fst (binary_op gpu0 ''a+b'' (+) buf_d buf_b) = Inr \<lparr>shape = [2, 3], cl = 3\<rparr> \<and>
   broadcastable (spec_pad_leading 2 [3]) (spec_pad_leading 2 [2, 3]) \<and>
   binary_op gpu0 ''a+b'' (+) buf_c buf_b = (Inl (ShapeMismatch [3] [2, 3]), gpu0) \<and>
   fst (binary_op gpu_s ''a+b'' (+) buf_s buf_s) = Inl CLError"
proof -
  have okd: "buffer_ok gpu0 buf_d" and okb: "buffer_ok gpu0 buf_b"
    by (simp_all add: buffer_ok_def gpu0_def buf_d_def buf_b_def dims_ok_def floats_def)
  have S: "binary_op_shapes (shape buf_d) (shape buf_b) = Inr ([2, 1], [2, 3], [2, 3])"
    by (simp add: binary_op_shapes_def Let_def set_prefix_def np_ones_def broadcastable_def
        np_maximum_def i32_def buf_d_def buf_b_def numeral_2_eq_2)
  have C: "compiler gpu0 (binop_prg (shape buf_d \<noteq> shape buf_b) ''a+b'')" by (simp add: gpu0_def)
  have A: "floats gpu0 (cl buf_d) = Some [10, 20]" and B: "floats gpu0 (cl buf_b) = Some [1, 2, 3, 4, 5, 6]"
    by (simp_all add: floats_def gpu0_def buf_d_def buf_b_def)
  from binary_op_success [OF S okd okb C _ A B, of "(+)"] obtain g' where
    "binary_op gpu0 ''a+b'' (+) buf_d buf_b = (Inr \<lparr>shape = [2, 3], cl = length (mem gpu0)\<rparr>, g')"
    by auto
  then have a: "fst (binary_op gpu0 ''a+b'' (+) buf_d buf_b) = Inr \<lparr>shape = [2, 3], cl = 3\<rparr>"
    by (simp add: gpu0_def)
  have b: "binary_op gpu0 ''a+b'' (+) buf_c buf_b = (Inl (ShapeMismatch [3] [2, 3]), gpu0)"
    by (simp add: binary_op_def binary_op_shapes_def Let_def set_prefix_def np_ones_def
        broadcastable_def i32_def buf_c_def buf_b_def numeral_2_eq_2)
  have c: "fst (binary_op gpu_s ''a+b'' (+) buf_s buf_s) = Inl CLError"
    by (rule binary_op_rank_0) (simp_all add: buf_s_def gpu_s_def)
  show ?thesis
    using a b c by (simp add: spec_pad_leading_def broadcastable_def numeral_2_eq_2)
qed

text \<open>
  Claim C3, amended. Let \<open>px\<close> and \<open>py\<close> be the shapes of the operands (\<^verbatim>\<open>int32\<close> sizes)
  padded with trailing 1s to the common rank \<open>n\<close>, as \<^verbatim>\<open>binary_op\<close> aligns them. If some
  dimension has two unequal sizes neither of which is 1, \<^verbatim>\<open>binary_op\<close> fails with the shape
  mismatch exception and the state is the state before the call: no buffer was allocated,
  nothing was compiled and no kernel was dispatched, so no partially written buffer is
  returned. If every dimension is compatible and \<open>n\<close> is at least 1 (and the operands are
  buffers of the state, the kernel source compiles and the result has fewer than \<open>2^31\<close>
  elements), \<^verbatim>\<open>binary_op\<close> succeeds: the shape of the returned buffer is the per-dimension
  maximum, the buffer is new, one kernel was dispatched and every cell of the buffer was
  written.
\<close>

theorem binary_op_shape_check:
  fixes x y :: gpubuffer and g :: "'a gpu"
  defines "n \<equiv> max (length (shape x)) (length (shape y))"
  defines "px \<equiv> shape x @ replicate (n - length (shape x)) 1"
  defines "py \<equiv> shape y @ replicate (n - length (shape y)) 1"
  assumes "list_all in_i32 (shape x)" "list_all in_i32 (shape y)"
  shows "((\<exists>i<n. px ! i \<noteq> py ! i \<and> px ! i \<noteq> 1 \<and> py ! i \<noteq> 1) \<longrightarrow>
            binary_op g code f x y = (Inl (ShapeMismatch (shape x) (shape y)), g)) \<and>
         ((\<forall>i<n. px ! i = py ! i \<or> px ! i = 1 \<or> py ! i = 1) \<and> 0 < n \<and>
          buffer_ok g x \<and> buffer_ok g y \<and>
          compiler g (binop_prg (shape x \<noteq> shape y) code) \<and>
          prod_list (map (\<lambda>i. max (px ! i) (py ! i)) [0..<n]) < 2147483648 \<longrightarrow>
            (\<exists>ret g'. binary_op g code f x y = (Inr ret, g') \<and>
               shape ret = map (\<lambda>i. max (px ! i) (py ! i)) [0..<n] \<and>
               cl ret = length (mem g) \<and>
               queue g' = queue g @ [''binop''] \<and>
               floats g' (cl ret) =
                 Some (map (broadcast_value f (the (floats g (cl x))) (the (floats g (cl y)))
                              px py (shape ret))
                         [0..<nat (prod_list (shape ret))])))"
proof (intro conjI impI)
  have ex: "set_prefix (np_ones n) (shape x) = px" and ey: "set_prefix (np_ones n) (shape y) = py"
    using assms(4,5) by (simp_all add: set_prefix_np_ones n_def px_def py_def)
  have len: "length px = n" "length py = n"
    by (simp_all add: px_def py_def n_def)
  have mx: "np_maximum px py = map (\<lambda>i. max (px ! i) (py ! i)) [0..<n]"
    using np_maximum_nth [of px py] len by simp
  {
    assume "\<exists>i<n. px ! i \<noteq> py ! i \<and> px ! i \<noteq> 1 \<and> py ! i \<noteq> 1"
    then have "\<not> broadcastable px py"
      using len by (auto simp: broadcastable_nth)
    then show "binary_op g code f x y = (Inl (ShapeMismatch (shape x) (shape y)), g)"
      unfolding ex [symmetric] ey [symmetric] n_def by (rule binary_op_mismatch)
  }
  {
    let ?sr = "map (\<lambda>i. max (px ! i) (py ! i)) [0..<n]"
    assume H: "(\<forall>i<n. px ! i = py ! i \<or> px ! i = 1 \<or> py ! i = 1) \<and> 0 < n \<and>
          buffer_ok g x \<and> buffer_ok g y \<and>
          compiler g (binop_prg (shape x \<noteq> shape y) code) \<and>
          prod_list ?sr < 2147483648"
    then have bc: "broadcastable px py" using len by (auto simp: broadcastable_nth)
    have S: "binary_op_shapes (shape x) (shape y) = Inr (px, py, ?sr)"
      unfolding binary_op_shapes_def Let_def n_def [symmetric] ex ey mx using bc by simp
    from H have X: "buffer_ok g x" and Y: "buffer_ok g y" by simp_all
    from buffer_okD(2) [OF X] obtain a_g where A: "floats g (cl x) = Some a_g" by blast
    from buffer_okD(2) [OF Y] obtain b_g where B: "floats g (cl y) = Some b_g" by blast
    from H have C: "compiler g (binop_prg (shape x \<noteq> shape y) code)"
      and P: "prod_list ?sr < 2147483648" and N: "?sr \<noteq> []" by simp_all
    from binary_op_success [OF S X Y C P A B N, of f] obtain g' where
      r: "binary_op g code f x y = (Inr \<lparr>shape = ?sr, cl = length (mem g)\<rparr>, g')"
      and fl: "floats g' (length (mem g)) =
        Some (map (broadcast_value f a_g b_g px py ?sr) [0..<nat (prod_list ?sr)])"
      and q: "queue g' = queue g @ [''binop'']" by blast
    show "\<exists>ret g'. binary_op g code f x y = (Inr ret, g') \<and>
               shape ret = ?sr \<and>
               cl ret = length (mem g) \<and>
               queue g' = queue g @ [''binop''] \<and>
               floats g' (cl ret) =
                 Some (map (broadcast_value f (the (floats g (cl x))) (the (floats g (cl y)))
                              px py (shape ret))
                         [0..<nat (prod_list (shape ret))])"
      using r fl q A B by (intro exI [of _ "\<lparr>shape = ?sr, cl = length (mem g)\<rparr>"] exI [of _ g']) simp
  }
qed

theorem binary_op_shape_check_witness:
  "list_all in_i32 (shape buf_a) \<and> list_all in_i32 (shape buf_b) \<and> list_all in_i32 (shape buf_c) \<and>
   buffer_ok gpu0 buf_a \<and> buffer_ok gpu0 buf_b \<and>
   (\<exists>ret g'. binary_op gpu0 ''a+b'' (+) buf_a buf_b = (Inr ret, g') \<and> shape ret = [2, 3] \<and>
      cl ret = 3 \<and> queue g' = [''binop''] \<and> floats g' (cl ret) = Some [11, 12, 13, 24, 25, 26]) \<and>
   binary_op gpu0 ''a+b'' (+) buf_c buf_b = (Inl (ShapeMismatch [3] [2, 3]), gpu0)"
proof -
  have ia: "list_all in_i32 (shape buf_a)" and ib: "list_all in_i32 (shape buf_b)"
    and ic: "list_all in_i32 (shape buf_c)"
    by (simp_all add: buf_a_def buf_b_def buf_c_def in_i32_def)
  have oka: "buffer_ok gpu0 buf_a" and okb: "buffer_ok gpu0 buf_b"
    by (simp_all add: buffer_ok_def gpu0_def buf_a_def buf_b_def dims_ok_def floats_def)
  have n: "max (length (shape buf_a)) (length (shape buf_b)) = 2"
    and n': "max (length (shape buf_c)) (length (shape buf_b)) = 2"
    by (simp_all add: buf_a_def buf_b_def buf_c_def)
  have pa: "shape buf_a @ replicate (2 - length (shape buf_a)) 1 = [2, 1]"
    and pb: "shape buf_b @ replicate (2 - length (shape buf_b)) 1 = [2, 3]"
    and pc: "shape buf_c @ replicate (2 - length (shape buf_c)) 1 = [3, 1]"
    by (simp_all add: buf_a_def buf_b_def buf_c_def numeral_2_eq_2)
  have mx: "map (\<lambda>i. max ([2, 1::int] ! i) ([2, 3] ! i)) [0..<2] = [2, 3]"
    by (simp add: numeral_2_eq_2 upt_rec)
  note T1 = binary_op_shape_check [of buf_a buf_b gpu0 "''a+b''" "(+)", OF ia ib,
      unfolded n pa pb mx, THEN conjunct2, rule_format]
  note T2 = binary_op_shape_check [of buf_c buf_b gpu0 "''a+b''" "(+)", OF ic ib,
      unfolded n' pc pb, THEN conjunct1, rule_format]
  have c1: "\<forall>i<2. [2, 1::int] ! i = [2, 3] ! i \<or> [2, 1::int] ! i = 1 \<or> [2, 3::int] ! i = 1"
    by (simp add: numeral_2_eq_2 All_less_Suc)
  have c2: "\<exists>i<2. [3, 1::int] ! i \<noteq> [2, 3] ! i \<and> [3, 1::int] ! i \<noteq> 1 \<and> [2, 3::int] ! i \<noteq> 1"
    by (intro exI [of _ 0]) simp
  have comp: "compiler gpu0 (binop_prg (shape buf_a \<noteq> shape buf_b) ''a+b'')"
    by (simp add: gpu0_def)
  have "\<exists>ret g'. binary_op gpu0 ''a+b'' (+) buf_a buf_b = (Inr ret, g') \<and>
           shape ret = [2, 3] \<and>
           cl ret = length (mem gpu0) \<and> queue g' = queue gpu0 @ [''binop''] \<and>
           floats g' (cl ret) =
             Some (map (broadcast_value (+) (the (floats gpu0 (cl buf_a))) (the (floats gpu0 (cl buf_b)))
                          [2, 1] [2, 3] (shape ret))
                     [0..<nat (prod_list (shape ret))])"
    by (rule T1) (simp add: c1 oka okb comp)
  then obtain ret g' where r: "binary_op gpu0 ''a+b'' (+) buf_a buf_b = (Inr ret, g')"
    and sh: "shape ret = [2, 3]" and h: "cl ret = length (mem gpu0)"
    and q: "queue g' = queue gpu0 @ [''binop'']"
    and fl: "floats g' (cl ret) =
             Some (map (broadcast_value (+) (the (floats gpu0 (cl buf_a))) (the (floats gpu0 (cl buf_b)))
                          [2, 1] [2, 3] (shape ret))
                     [0..<nat (prod_list (shape ret))])"
    by blast
  have "cl ret = 3" using h by (simp add: gpu0_def)
  moreover have "queue g' = [''binop'']" using q by (simp add: gpu0_def)
  moreover have "floats g' (cl ret) = Some [11, 12, 13, 24, 25, 26]"
  proof -
    have u: "[0..<nat (prod_list [2, 3::int])] = [0, 1, 2, 3, 4, 5]" by code_simp
    show ?thesis
      unfolding fl sh u
      by (simp add: broadcast_value_def operand_coords_def floats_def gpu0_def buf_a_def buf_b_def)
  qed
  ultimately have A: "\<exists>ret g'. binary_op gpu0 ''a+b'' (+) buf_a buf_b = (Inr ret, g') \<and>
      shape ret = [2, 3] \<and> cl ret = 3 \<and> queue g' = [''binop''] \<and>
      floats g' (cl ret) = Some [11, 12, 13, 24, 25, 26]"
    using r sh by blast
  have "binary_op gpu0 ''a+b'' (+) buf_c buf_b =
      (Inl (ShapeMismatch (shape buf_c) (shape buf_b)), gpu0)"
    by (rule T2) (rule c2)
  then have B: "binary_op gpu0 ''a+b'' (+) buf_c buf_b = (Inl (ShapeMismatch [3] [2, 3]), gpu0)"
    by (simp add: buf_c_def buf_b_def)
  from ia ib ic oka okb A B show ?thesis by blast
qed

section \<open>The kernel cache (C4)\<close>











lemma length_concat_replicate: "length (concat (replicate i xs)) = i * length xs"
  by (induction i) simp_all

lemma code_n_inj [simp]: "(code_n i = code_n j) = (i = j)"
proof
  assume "code_n i = code_n j"
  then have "length (code_n i) = length (code_n j)" by simp
  then show "i = j" by (simp add: code_n_def length_concat_replicate)
qed simp

lemma key_n_inj [simp]: "(key_n i = key_n j) = (i = j)"
  by (simp add: key_n_def binop_prg_def)






section \<open>Reshape (C7)\<close>










section \<open>unbroadcast (C5)\<close>

lemma reduce_op_rank_0:
  fixes g :: "('a::zero) gpu"
  assumes "shape inp = []" "compiler g (reduce_prg code code2)"
  shows "fst (reduce_op g code step code2 fin inp (Some [])) = Inl CLError"
proof -
  obtain ret g1 where bn: "buffer_new g [] = (ret, g1)" by (cases "buffer_new g []")
  then have c1: "compiler g1 = compiler g"
    by (auto simp: buffer_new_def GPUBuffer_def alloc_def)
  have "compiler g1 (snd (snd (cl_ctx g1, ''reduce'', reduce_prg code code2)))"
    using assms(2) c1 by simp
  from clbuild_ok [OF this] obtain p g2 where
    cb: "clbuild g1 (cl_ctx g1, ''reduce'', reduce_prg code code2) = (Inr p, g2)" by blast
  have np: "buffer_np g2 [] = (Inl CLError, g2)" by (simp add: buffer_np_def)
  show ?thesis
    unfolding reduce_op_def by (simp add: assms(1) bn cb np)
qed

text \<open>
  Claim C5 is about every gradient buffer and every original shape of the same rank. For
  a gradient of rank 0 and the original shape \<^verbatim>\<open>()\<close>, \<^verbatim>\<open>unbroadcast\<close> calls \<^verbatim>\<open>reduce_op\<close>
  with the empty list of axes, and \<^verbatim>\<open>reduce_op\<close> fails in \<^verbatim>\<open>buffer_np\<close>, which cannot
  create a buffer for the empty shape array: there is no result.
\<close>

theorem unbroadcast_rank_0_counterexample:
  "buffer_ok gpu_s buf_s \<and> length ([] :: int list) = length (shape buf_s) \<and>
   fst (unbroadcast gpu_s buf_s []) = Inl CLError"
proof -
  have "fst (reduce_op gpu_s ''out += a'' (+) ''out'' (\<lambda>out. out) buf_s (Some [])) = Inl CLError"
    by (rule reduce_op_rank_0) (simp_all add: buf_s_def gpu_s_def)
  then show ?thesis
    by (simp add: unbroadcast_def buf_s_def buffer_ok_def gpu_s_def dims_ok_def floats_def)
qed

text \<open>
  Claim C5, amended: for a gradient of rank at least 1. For a gradient buffer \<open>out\<close> of
  rank at least 1 and an original shape \<open>in_sh\<close> of the same rank, \<^verbatim>\<open>unbroadcast\<close> returns the
  sum-reduction of the gradient over exactly the axes \<open>i\<close> with \<open>in_sh[i] = 1\<close> and
  \<open>out.shape[i] > 1\<close>: the shape of the result has size 1 on these axes and the size of
  the gradient on the others, and its contents are \<open>axis_sum\<close> of the contents of the
  gradient (summing combine, identity finalize). The gradient is a buffer of the state
  with fewer than \<open>2^31\<close> elements and the kernel source compiles. The instance below is
  the gradient \<open>ones(3, 4)\<close> for the original shape \<open>(3, 1)\<close>, with result
  \<open>[[4], [4], [4]]\<close>.
\<close>

theorem unbroadcast_sums_expanded_axes:
  fixes g :: "('a::{zero,plus}) gpu"
  defines "A \<equiv> \<lambda>in_sh osh i. in_sh ! i = 1 \<and> 1 < osh ! (i::nat)"
  assumes "buffer_ok g out" "length in_sh = length (shape out)"
    and "compiler g (reduce_prg ''out += a'' ''out'')"
    and "prod_list (shape out) < 2147483648"
    and "shape out \<noteq> []"
  shows "\<exists>ret g'. unbroadcast g out in_sh = (Inr ret, g') \<and>
     shape ret = map (\<lambda>i. if A in_sh (shape out) i then 1 else shape out ! i)
                   [0..<length (shape out)] \<and>
     floats g' (cl ret) =
       Some (axis_sum (A in_sh (shape out)) (shape out) (the (floats g (cl out))))"
proof -
  let ?s = "shape out"
  let ?A = "A in_sh ?s"
  let ?kept = "map (\<lambda>i. if ?A i then 1 else ?s ! i) [0..<length ?s]"
  from buffer_okD(2) [OF assms(2)] obtain a_g where a: "floats g (cl out) = Some a_g" by blast
  note pos = dims_ok_positive [OF buffer_okD(1) [OF assms(2)]]
  have ne: "\<forall>i<length ?s. ?A i \<longrightarrow> ?s ! i \<noteq> 1" by (simp add: A_def)
  note R = kept_reduces_to [of ?s ?A]
  note V = reduction_value_axis_sum [OF ne, of a_g]
  show ?thesis
  proof (cases "in_sh = [1]")
    case True
    then obtain n where s: "?s = [n]" using assms(3) by (cases ?s) auto
    have n: "0 < n" using pos s by simp
    have k: "?kept = [1]" using n by (auto simp: s A_def True)
    have O: "(case None of None \<Rightarrow> Inr (replicate (length ?s) 1)
             | Some ax \<Rightarrow> set_ones ?s ax) = Inr ?kept"
      unfolding k by (simp add: s)
    from reduce_op_success [OF assms(2) a O R assms(4,5,6), of "(+)" "\<lambda>out. out"]
    obtain g' where
      r: "reduce_op g ''out += a'' (+) ''out'' (\<lambda>out. out) out None =
          (Inr \<lparr>shape = [1], cl = length (mem g)\<rparr>, g')"
      and f: "floats g' (length (mem g)) =
          Some (map (reduction_value (+) (\<lambda>out. out) a_g ?s ?kept) [0..<nat (prod_list ?kept)])"
      by auto
    have "unbroadcast g out in_sh = (Inr \<lparr>shape = [1], cl = length (mem g)\<rparr>, g')"
      using True r by (simp add: unbroadcast_def)
    then show ?thesis using f k a unfolding V by auto
  next
    case False
    define ax where "ax = map int (filter ?A [0..<length ?s])"
    have sa: "sum_axis in_sh ?s [0..<length in_sh] = Inr ax"
      using assms(3) by (simp add: sum_axis_filter ax_def A_def)
    have O: "(case Some ax of None \<Rightarrow> Inr (replicate (length ?s) 1)
             | Some ax \<Rightarrow> set_ones ?s ax) = Inr ?kept"
      using set_ones_axes [OF ax_def] by simp
    from reduce_op_success [OF assms(2) a O R assms(4,5,6), of "(+)" "\<lambda>out. out"]
    obtain g' where
      r: "reduce_op g ''out += a'' (+) ''out'' (\<lambda>out. out) out (Some ax) =
          (Inr \<lparr>shape = ?kept, cl = length (mem g)\<rparr>, g')"
      and f: "floats g' (length (mem g)) =
          Some (map (reduction_value (+) (\<lambda>out. out) a_g ?s ?kept) [0..<nat (prod_list ?kept)])"
      by auto
    have "unbroadcast g out in_sh = (Inr \<lparr>shape = ?kept, cl = length (mem g)\<rparr>, g')"
      using False r sa by (simp add: unbroadcast_def)
    then show ?thesis using f a unfolding V by auto
  qed
qed

theorem unbroadcast_sums_expanded_axes_witness:
  "buffer_ok gpu1 grad_ones \<and> shape grad_ones \<noteq> [] \<and>
   (\<exists>ret g'. unbroadcast gpu1 grad_ones [3, 1] = (Inr ret, g') \<and> shape ret = [3, 1] \<and>
      floats g' (cl ret) = Some [4, 4, 4])"
proof -
  have ok: "buffer_ok gpu1 grad_ones"
    by (simp add: buffer_ok_def gpu1_def grad_ones_def dims_ok_def floats_def)
  have len: "length [3, 1::int] = length (shape grad_ones)" by (simp add: grad_ones_def)
  have c: "compiler gpu1 (reduce_prg ''out += a'' ''out'')" by (simp add: gpu1_def)
  have p: "prod_list (shape grad_ones) < 2147483648" by (simp add: grad_ones_def)
  have ne: "shape grad_ones \<noteq> []" by (simp add: grad_ones_def)
  from unbroadcast_sums_expanded_axes [OF ok len c p ne] obtain ret g' where
    r: "unbroadcast gpu1 grad_ones [3, 1] = (Inr ret, g')"
    and sh: "shape ret = map (\<lambda>i. if [3, 1::int] ! i = 1 \<and> 1 < shape grad_ones ! i then 1
                                   else shape grad_ones ! i) [0..<length (shape grad_ones)]"
    and fl: "floats g' (cl ret) =
       Some (axis_sum (\<lambda>i. [3, 1::int] ! i = 1 \<and> 1 < shape grad_ones ! i) (shape grad_ones)
               (the (floats gpu1 (cl grad_ones))))"
    by blast
  have u2: "[0..<length (shape grad_ones)] = [0, 1]" by (simp add: grad_ones_def upt_rec)
  have sh': "shape ret = [3, 1]" unfolding sh u2 by (simp add: grad_ones_def)
  have k: "map (\<lambda>i. if [3, 1::int] ! i = 1 \<and> 1 < [3, 4::int] ! i then 1 else [3, 4] ! i) [0, 1] = [3, 1]"
    and m: "map (\<lambda>i. if [3, 1::int] ! i = 1 \<and> 1 < [3, 4::int] ! i then [3, 4] ! i else 1) [0, 1] = [1, 4]"
    by simp_all
  have u3: "[0..<nat (prod_list [3, 1::int])] = [0, 1, 2]" by code_simp
  have u4: "[0..<nat (prod_list [1, 4::int])] = [0, 1, 2, 3]" by code_simp
  have "axis_sum (\<lambda>i. [3, 1::int] ! i = 1 \<and> 1 < shape grad_ones ! i) (shape grad_ones)
               (the (floats gpu1 (cl grad_ones))) = [4, 4, 4]"
    unfolding axis_sum_def Let_def u2
    apply (simp only: grad_ones_def gpubuffer.simps k m u3 u4)
    apply (simp add: floats_def gpu1_def)
    done
  with r sh' fl ok ne show ?thesis by auto
qed

section \<open>The axes of a reduction (C8)\<close>

lemma Sum_forward_invalid_axis:
  assumes "\<exists>a\<in>set ax. a < - int (length (shape inp)) \<or> int (length (shape inp)) \<le> a"
  shows "Sum_forward g inp (Some ax) = (Inl IndexError, g)"
  by (simp add: Sum_forward_def reduce_op_invalid_axis [OF assms])

text \<open>
  Claim C8 requires \<open>0 \<le> axis < rank\<close> of every axis, and a failure before any dispatch
  otherwise. The source has no check of its own. The only check is numpy's, in
  \<^verbatim>\<open>osize[list(axis)] = 1\<close>: an axis below \<open>-rank\<close> or from \<open>rank\<close> on raises \<^verbatim>\<open>IndexError\<close>
  in the state before the call (\<open>reduce_op_invalid_axis\<close>, \<open>Sum_forward_invalid_axis\<close>),
  but an axis with \<open>-rank \<le> axis < 0\<close> passes. \<^verbatim>\<open>Sum.forward\<close> then computes the shape of
  its result with \<^verbatim>\<open>i not in axis\<close>, which takes the axes to be non-negative. For the
  buffer of shape \<open>(2, 3)\<close> and \<open>axis = [-1]\<close>, \<^verbatim>\<open>reduce_op\<close> dispatches the kernel and
  returns the two sums over the last dimension, and \<^verbatim>\<open>Sum.forward\<close> gives this buffer of
  two floats the shape \<open>(2, 3)\<close>, that of six.
\<close>

theorem Sum_forward_negative_axis:
  "fst (reduce_op gpu0 ''out += a'' (+) ''out'' (\<lambda>out. out) buf_b (Some [- 1])) =
     Inr \<lparr>shape = [2, 1], cl = 3\<rparr> \<and>
   fst (Sum_forward gpu0 buf_b (Some [- 1])) = Inr \<lparr>shape = [2, 3], cl = 3\<rparr> \<and>
   queue (snd (Sum_forward gpu0 buf_b (Some [- 1]))) = [''reduce''] \<and>
   floats (snd (Sum_forward gpu0 buf_b (Some [- 1]))) 3 = Some [6, 15]"
proof -
  have okb: "buffer_ok gpu0 buf_b"
    by (simp add: buffer_ok_def gpu0_def buf_b_def dims_ok_def floats_def)
  have A: "floats gpu0 (cl buf_b) = Some [1, 2, 3, 4, 5, 6]"
    by (simp add: floats_def gpu0_def buf_b_def)
  have O: "(case Some [- 1] of None \<Rightarrow> Inr (replicate (length (shape buf_b)) 1)
             | Some ax \<Rightarrow> set_ones (shape buf_b) ax) = Inr [2, 1]"
    by (simp add: buf_b_def np_index_def)
  have R: "reduces_to (shape buf_b) [2, 1]" by (simp add: buf_b_def)
  have C: "compiler gpu0 (reduce_prg ''out += a'' ''out'')" by (simp add: gpu0_def)
  have P: "prod_list (shape buf_b) < 2147483648" by (simp add: buf_b_def)
  have N: "shape buf_b \<noteq> []" by (simp add: buf_b_def)
  from reduce_op_success [OF okb A O R C P N, of "(+)" "\<lambda>out. out"] obtain g' where
    r: "reduce_op gpu0 ''out += a'' (+) ''out'' (\<lambda>out. out) buf_b (Some [- 1]) =
        (Inr \<lparr>shape = [2, 1], cl = length (mem gpu0)\<rparr>, g')"
    and f: "floats g' (length (mem gpu0)) =
        Some (map (reduction_value (+) (\<lambda>out. out) [1, 2, 3, 4, 5, 6] (shape buf_b) [2, 1])
               [0..<nat (prod_list [2, 1])])"
    and q: "queue g' = queue gpu0 @ [''reduce'']"
    by auto
  have l: "length (mem gpu0) = 3" by (simp add: gpu0_def)
  have u2: "[0..<nat (prod_list [2, 1::int])] = [0, 1]" by code_simp
  have u3: "[0..<3] = [0, 1, 2]" by code_simp
  have v: "map (reduction_value (+) (\<lambda>out. out) [1, 2, 3, 4, 5, 6::int] (shape buf_b) [2, 1])
               [0..<nat (prod_list [2, 1])] = [6, 15]"
    unfolding u2 reduction_value_def
    apply (simp only: buf_b_def gpubuffer.simps summed_shape_simps)
    apply (simp add: u3)
    done
  have s: "Sum_forward gpu0 buf_b (Some [- 1]) = (Inr \<lparr>shape = [2, 3], cl = 3\<rparr>, g')"
    unfolding Sum_forward_def r by (simp add: map_nth l del: upt.simps) (simp add: buf_b_def)
  show ?thesis using r f q unfolding s l v by (simp add: gpu0_def)
qed

end
